theory Spec2Isabelle
  imports Complex_Main
begin

section \<open>Python values used by the bionic reader\<close>

text \<open>
  A Python \<open>str\<close> is a sequence of Unicode code points, and \<open>len\<close>, slicing and the
  regular-expression engine all count code points. Text is therefore a list of code points
  (natural numbers), not a list of bytes.
\<close>

type_synonym ustring = "nat list"

definition ustr :: "string \<Rightarrow> ustring" where
  "ustr s = map of_char s"

text \<open>
  What the interpreter supplies and the repository does not contain: the Unicode
  classification of the code points from 128 on (\<open>str.isalnum\<close>, \<open>str.isspace\<close>), the
  rounding of a binary64 operation to its representable result, and the decimal rendering of
  a float. The ASCII part of both classifications is written out below.
\<close>

record python =
  uni_alnum :: "nat \<Rightarrow> bool"
  uni_space :: "nat \<Rightarrow> bool"
  fl :: "real \<Rightarrow> real"
  float_str :: "real \<Rightarrow> string"

definition ascii_alnum :: "nat \<Rightarrow> bool" where
  "ascii_alnum c = ((48 \<le> c \<and> c \<le> 57) \<or> (65 \<le> c \<and> c \<le> 90) \<or> (97 \<le> c \<and> c \<le> 122))"

definition ascii_space :: "nat \<Rightarrow> bool" where
  "ascii_space c = ((9 \<le> c \<and> c \<le> 13) \<or> (28 \<le> c \<and> c \<le> 32))"

text \<open>\<open>\w\<close> under \<open>re.UNICODE\<close>: an alphanumeric code point or the underscore.\<close>

definition is_word_char :: "python \<Rightarrow> nat \<Rightarrow> bool" where
  "is_word_char py c = (if c < 128 then ascii_alnum c \<or> c = 95 else uni_alnum py c)"

definition is_space :: "python \<Rightarrow> nat \<Rightarrow> bool" where
  "is_space py c = (if c < 128 then ascii_space c else uni_space py c)"

text \<open>\<open>str.strip()\<close> without arguments removes leading and trailing whitespace.\<close>

definition py_strip :: "python \<Rightarrow> ustring \<Rightarrow> ustring" where
  "py_strip py s = rev (dropWhile (is_space py) (rev (dropWhile (is_space py) s)))"

text \<open>\<open>int(x)\<close> on a float truncates towards zero.\<close>

definition py_int :: "real \<Rightarrow> int" where
  "py_int x = (if 0 \<le> x then \<lfloor>x\<rfloor> else \<lceil>x\<rceil>)"

text \<open>A slice \<open>s[a:b]\<close> with non-negative bounds; it is empty when \<open>b \<le> a\<close>.\<close>

definition slice :: "'a list \<Rightarrow> nat \<Rightarrow> nat \<Rightarrow> 'a list" where
  "slice s a b = take (b - a) (drop a s)"

text \<open>
  A runtime whose tables beyond ASCII are empty and whose float operations are exact. On
  ASCII text and on products that binary64 represents exactly it computes what CPython
  computes; the concrete evaluations below use it.
\<close>

definition ascii_runtime :: python where
  "ascii_runtime =
     \<lparr>uni_alnum = (\<lambda>c. False), uni_space = (\<lambda>c. False), fl = (\<lambda>x. x),
      float_str = (\<lambda>x. [])\<rparr>"

text \<open>
  The binary64 numbers (an integer below \<open>2\<^sup>5\<^sup>3\<close> in absolute value, scaled by a power of two
  within the exponent range), and what it means for the result of a float operation to be
  rounded to a nearest one. The exact runtime above rounds in this sense, its error being 0.
\<close>

definition is_binary64 :: "real \<Rightarrow> bool" where
  "is_binary64 x =
     (\<exists>m a b. \<bar>m\<bar> < (2::int) ^ 53 \<and> a \<le> (971::nat) \<and> b \<le> (1074::nat) \<and>
              x = real_of_int m * 2 ^ a / 2 ^ b)"

definition rounds_to_nearest :: "(real \<Rightarrow> real) \<Rightarrow> bool" where
  "rounds_to_nearest f = (\<forall>x d. is_binary64 d \<longrightarrow> \<bar>f x - x\<bar> \<le> \<bar>d - x\<bar>)"

section \<open>processor.py\<close>

definition open_prefix :: ustring where
  "open_prefix = ustr ''<span class=\"bionic-prefix\">''"

definition open_rest :: ustring where
  "open_rest = ustr ''<span class=\"bionic-rest\">''"

definition close_span :: ustring where
  "close_span = ustr ''</span>''"

text \<open>
  The split point \<open>max(1, int(len(word) * bold_ratio))\<close> of \<open>wrap_word\<close>. The ratio is a
  finite float, given by its value, and the product is taken to be finite as well, which it
  is for every ratio in \<open>(0, 1]\<close>. On a ratio that is \<open>nan\<close> or infinite, and on a product
  that overflows, \<open>int\<close> raises; these inputs have no counterpart among the reals and are
  not covered by this definition.
\<close>

definition split_point :: "python \<Rightarrow> nat \<Rightarrow> real \<Rightarrow> int" where
  "split_point py L bold_ratio = max 1 (py_int (fl py (real L * bold_ratio)))"

definition wrap_word :: "python \<Rightarrow> ustring \<Rightarrow> real \<Rightarrow> ustring" where
  "wrap_word py word bold_ratio =
     (if length word = 1 then open_prefix @ word @ close_span
      else
        let k = split_point py (length word) bold_ratio;
            left = take (nat k) word;
            right = drop (nat k) word
        in open_prefix @ left @ close_span @ open_rest @ right @ close_span)"

text \<open>
  \<open>re.finditer(r"(\w+)", text)\<close>: the spans \<open>(start, end)\<close> of the maximal runs of word
  characters, from left to right. The second argument is the index of the first
  character of the text still to scan.
\<close>

function finditer_words :: "(nat \<Rightarrow> bool) \<Rightarrow> nat \<Rightarrow> ustring \<Rightarrow> (nat \<times> nat) list" where
  "finditer_words w i [] = []"
| "finditer_words w i (c # cs) =
     (if w c
      then (i, i + Suc (length (takeWhile w cs)))
             # finditer_words w (i + Suc (length (takeWhile w cs))) (dropWhile w cs)
      else finditer_words w (Suc i) cs)"
  by pat_completeness auto
termination
  by (relation "measure (\<lambda>(w, i, s). length s)")
     (auto simp: length_dropWhile_le le_imp_less_Suc)

text \<open>
  The body of the \<open>for m in re.finditer(...)\<close> loop, on the state
  \<open>(new_html, last_index)\<close>.
\<close>

fun emphasis_loop ::
  "python \<Rightarrow> real \<Rightarrow> ustring \<Rightarrow> (nat \<times> nat) list \<Rightarrow> ustring list \<times> nat \<Rightarrow> ustring list \<times> nat"
where
  "emphasis_loop py r text [] st = st"
| "emphasis_loop py r text ((start, end) # ms) (new_html, last_index) =
     (let word = slice text start end;
          new_html1 = (if start > last_index
                       then new_html @ [slice text last_index start] else new_html);
          new_html2 = new_html1 @ [wrap_word py word r]
      in emphasis_loop py r text ms (new_html2, end))"

definition process_text_node :: "python \<Rightarrow> ustring \<Rightarrow> real \<Rightarrow> ustring option" where
  "process_text_node py text bold_ratio =
     (if py_strip py text = [] then None
      else
        let (new_html, last_index) =
              emphasis_loop py bold_ratio text
                (finditer_words (is_word_char py) 0 text) ([], 0);
            new_html' = (if last_index < length text
                         then new_html @ [drop last_index text] else new_html)
        in Some (concat new_html'))"

text \<open>
  The plain-text projection of a markup fragment, as the specification uses it to state the
  round trip: all tag markup stripped. Everything from a \<open><\<close> up to and including the
  next \<open>>\<close> is markup and is dropped; everything else is text and is kept. The flag says
  whether the scan is inside a tag.
\<close>

fun strip_tags :: "bool \<Rightarrow> ustring \<Rightarrow> ustring" where
  "strip_tags in_tag [] = []"
| "strip_tags False (c # cs) = (if c = 60 then strip_tags True cs else c # strip_tags False cs)"
| "strip_tags True (c # cs) = (if c = 62 then strip_tags False cs else strip_tags True cs)"

definition plain_text :: "ustring \<Rightarrow> ustring" where
  "plain_text s = strip_tags False s"

text \<open>
  Whether a scan that starts in the given state ends inside a tag. It is used only to reason
  about \<open>strip_tags\<close> on concatenations.
\<close>

fun tag_state :: "bool \<Rightarrow> ustring \<Rightarrow> bool" where
  "tag_state b [] = b"
| "tag_state False (c # cs) = tag_state (c = 60) cs"
| "tag_state True (c # cs) = tag_state (c \<noteq> 62) cs"

section \<open>External collaborators\<close>

text \<open>
  The libraries the repository calls are not part of it. Their data is modelled as far as the
  repository reads it, and their behaviour is a parameter: the record \<open>libs\<close> below holds one
  function per library call whose result the repository depends on. A call that raises
  returns \<open>Inl\<close> with the message of the exception.
\<close>

subsection \<open>lxml elements\<close>

text \<open>
  An lxml element has a tag, attributes in insertion order, the text before its first child,
  its children, and the text that follows it in its parent (its tail).
\<close>

datatype elem =
  Elem (tag: string) (attrib: "(string \<times> ustring) list") (etext: "ustring option")
       (children: "elem list") (etail: "ustring option")

text \<open>
  \<open>e.append(c)\<close> and \<open>e.set(k, v)\<close>. The element builders of lxml raise on a string
  that XML cannot hold (a control character); the text of a run is read from an XML document
  and holds none, so building an element is total here.
\<close>

definition append_child :: "elem \<Rightarrow> elem \<Rightarrow> elem" where
  "append_child e c = Elem (tag e) (attrib e) (etext e) (children e @ [c]) (etail e)"

fun set_attr :: "(string \<times> ustring) list \<Rightarrow> string \<Rightarrow> ustring \<Rightarrow> (string \<times> ustring) list" where
  "set_attr [] k v = [(k, v)]"
| "set_attr ((k', v') # kvs) k v =
     (if k' = k then (k, v) # kvs else (k', v') # set_attr kvs k v)"

definition set_elem :: "elem \<Rightarrow> string \<Rightarrow> ustring \<Rightarrow> elem" where
  "set_elem e k v = Elem (tag e) (set_attr (attrib e) k v) (etext e) (children e) (etail e)"

text \<open>The text of an optional string; \<open>None\<close> and the empty string are both falsy.\<close>

definition text_of :: "ustring option \<Rightarrow> ustring" where
  "text_of t = (case t of None \<Rightarrow> [] | Some s \<Rightarrow> s)"

text \<open>
  \<open>text_content()\<close>: the text of an element and of all its descendants, in document order,
  tails of the descendants included.
\<close>

fun text_content :: "elem \<Rightarrow> ustring" where
  "text_content (Elem t a x cs y) =
     text_of x @ concat (map (\<lambda>c. text_content c @ text_of (etail c)) cs)"

subsection \<open>The document of python-docx\<close>

datatype alignment = LEFT | CENTER | RIGHT | JUSTIFY

text \<open>
  A drawing of a run: \<open>blip\<close> is \<open>None\<close> when the drawing has no \<open>a:blip\<close> element,
  \<open>Some None\<close> when the blip has no \<open>r:embed\<close> attribute, and \<open>Some (Some rid)\<close> otherwise.
\<close>

record drawing =
  blip :: "string option option"

text \<open>
  A run: its text, the truth values of \<open>run.bold\<close>, \<open>run.italic\<close> and \<open>run.underline\<close>,
  \<open>run.font.size\<close> in EMU (\<open>None\<close> when absent), its \<open>w:drawing\<close> elements and whether it
  holds a \<open>w:br\<close>.
\<close>

record run =
  run_text :: ustring
  bold :: bool
  italic :: bool
  underline :: bool
  run_font_size :: "int option"
  drawings :: "drawing list"
  line_break :: bool

record docx_paragraph =
  alignment :: "alignment option"
  runs :: "run list"

text \<open>A table is a list of rows, a row a list of cells, a cell a list of paragraphs.\<close>

type_synonym table = "docx_paragraph list list list"

text \<open>
  The children of the document body, in document order. \<open>Body_other\<close> stands for every
  element that is neither a top-level paragraph nor a top-level table (section properties
  and the like).
\<close>

datatype body_element = Body_p docx_paragraph | Body_tbl table | Body_other

record relationship =
  reltype :: string
  blob :: "nat list"
  rId :: string

record document =
  body :: "body_element list"
  rels :: "relationship list"

subsection \<open>Pillow images\<close>

record image =
  mode :: string
  transparency :: bool
  width :: nat
  height :: nat

text \<open>
  \<open>Image.convert("RGB")\<close> and \<open>Image.resize\<close>. Pillow refuses a target size with a
  dimension below 1 (\<open>ValueError: height and width must be > 0\<close>); otherwise the result has
  the requested size.
\<close>

definition convert_rgb :: "image \<Rightarrow> image" where
  "convert_rgb im = im\<lparr>mode := ''RGB'', transparency := False\<rparr>"

definition pil_resize :: "image \<Rightarrow> int \<times> int \<Rightarrow> string + image" where
  "pil_resize im new_size =
     (if fst new_size < 1 \<or> snd new_size < 1 then Inl ''height and width must be > 0''
      else Inr (im\<lparr>width := nat (fst new_size), height := nat (snd new_size)\<rparr>))"

subsection \<open>Files\<close>

text \<open>
  The file system holds, per path, an empty file, a PDF with its pages, a file that a failed
  write left incomplete, or some other file (the input). \<open>tmp_names\<close> are the names that
  \<open>tempfile.mkstemp\<close> hands out, in order.
\<close>

type_synonym path = string

datatype 'p file_content = Empty_file | Pdf_file "'p list" | Partial_file | Other_file

record 'p world =
  files :: "path \<rightharpoonup> 'p file_content"
  tmp_names :: "path list"

datatype save_outcome = Saved | Save_failed | Save_failed_partial

record 'p libs =
  read_document :: "path \<Rightarrow> string + document"
  image_open :: "nat list \<Rightarrow> string + image"
  image_save :: "image \<Rightarrow> string \<Rightarrow> string + nat list"
  b64encode :: "nat list \<Rightarrow> string"
  html_fromstring :: "ustring \<Rightarrow> string + elem"
  html_tostring :: "elem \<Rightarrow> ustring"
  write_pdf :: "ustring \<Rightarrow> string + 'p list"
  fitz_save :: "'p list \<Rightarrow> path \<Rightarrow> save_outcome"

section \<open>image\_handler.py\<close>

definition MAX_IMAGE_WIDTH :: nat where
  "MAX_IMAGE_WIDTH = 1200"

datatype log_entry = Warning string | Error string

text \<open>
  The size handed to \<open>resize\<close>:
  \<open>ratio = MAX_IMAGE_WIDTH / float(width)\<close>,
  \<open>new_size = (int(width * ratio), int(height * ratio))\<close>.
\<close>

definition new_size :: "python \<Rightarrow> nat \<Rightarrow> nat \<Rightarrow> int \<times> int" where
  "new_size py w h =
     (let ratio = fl py (real MAX_IMAGE_WIDTH / real w)
      in (py_int (fl py (real w * ratio)), py_int (fl py (real h * ratio))))"

text \<open>
  \<open>process_single_image\<close> returns \<open>(rel_id, data_url)\<close>; the third component is what it
  writes to the log. Every exception inside it ends in the one handler.
\<close>

definition process_single_image ::
  "python \<Rightarrow> 'p libs \<Rightarrow> nat list \<Rightarrow> string \<Rightarrow> string \<times> string option \<times> log_entry list"
where
  "process_single_image py libs image_data rel_id =
     (let failed = (\<lambda>e. (rel_id, None,
                     [Warning (''Failed to process image '' @ rel_id @ '': '' @ e)]))
      in case image_open libs image_data of
           Inl e \<Rightarrow> failed e
         | Inr image0 \<Rightarrow>
             let keep_png = (mode image0 = ''RGBA'' \<or> mode image0 = ''LA'' \<or>
                             (mode image0 = ''P'' \<and> transparency image0));
                 image1 = (if keep_png then image0 else convert_rgb image0);
                 format_type = (if keep_png then ''PNG'' else ''JPEG'');
                 resized = (if width image1 > MAX_IMAGE_WIDTH
                            then pil_resize image1 (new_size py (width image1) (height image1))
                            else Inr image1)
             in case resized of
                  Inl e \<Rightarrow> failed e
                | Inr image2 \<Rightarrow>
                    (case image_save libs image2 format_type of
                       Inl e \<Rightarrow> failed e
                     | Inr final_data \<Rightarrow>
                         let mime_type = (if format_type = ''JPEG'' then ''image/jpeg''
                                          else ''image/png'')
                         in (rel_id,
                             Some (''data:'' @ mime_type @ '';base64,'' @ b64encode libs final_data),
                             [])))"

text \<open>The image that \<open>process_single_image\<close> encodes, when it gets that far.\<close>

definition normalized_image :: "python \<Rightarrow> 'p libs \<Rightarrow> nat list \<Rightarrow> string + image" where
  "normalized_image py libs image_data =
     (case image_open libs image_data of
        Inl e \<Rightarrow> Inl e
      | Inr image0 \<Rightarrow>
          let keep_png = (mode image0 = ''RGBA'' \<or> mode image0 = ''LA'' \<or>
                          (mode image0 = ''P'' \<and> transparency image0));
              image1 = (if keep_png then image0 else convert_rgb image0)
          in if width image1 > MAX_IMAGE_WIDTH
             then pil_resize image1 (new_size py (width image1) (height image1))
             else Inr image1)"

text \<open>\<open>"image" in rel.reltype\<close>.\<close>

fun contains :: "string \<Rightarrow> string \<Rightarrow> bool" where
  "contains sub [] = (sub = [])"
| "contains sub (c # cs) = (take (length sub) (c # cs) = sub \<or> contains sub cs)"

text \<open>
  The loop over the futures of \<open>extract_images_from_doc\<close>, in submission order, on the
  state \<open>(results, logged)\<close>. A null \<open>data_url\<close> is not entered into the dictionary.
\<close>

fun collect_images ::
  "python \<Rightarrow> 'p libs \<Rightarrow> (nat list \<times> string) list \<Rightarrow>
     (string \<rightharpoonup> string) \<times> log_entry list \<Rightarrow> (string \<rightharpoonup> string) \<times> log_entry list"
where
  "collect_images py libs [] st = st"
| "collect_images py libs ((data, rid) # tasks) (results, logged) =
     (case process_single_image py libs data rid of
        (rid', data_url, msgs) \<Rightarrow>
          collect_images py libs tasks
            (case data_url of
               None \<Rightarrow> (results, logged @ msgs)
             | Some u \<Rightarrow> (if u \<noteq> [] then results(rid' \<mapsto> u) else results, logged @ msgs)))"

definition extract_images_from_doc ::
  "python \<Rightarrow> 'p libs \<Rightarrow> document \<Rightarrow> (string \<rightharpoonup> string) \<times> log_entry list"
where
  "extract_images_from_doc py libs doc =
     (let tasks = map (\<lambda>r. (blob r, rId r))
                    (filter (\<lambda>r. contains ''image'' (reltype r)) (rels doc))
      in if tasks = [] then (Map.empty, [])
         else collect_images py libs tasks (Map.empty, []))"

section \<open>styles.py\<close>


text \<open>Every line of a list, each followed by a line feed.\<close>

definition unlines :: "ustring list \<Rightarrow> ustring" where
  "unlines ls = concat (map (\<lambda>l. l @ [10]) ls)"

text \<open>
  \<open>HTML_HEAD_TEMPLATE.format(font_family=..., font_size=..., bold_weight="700",
  normal_weight="400")\<close>. The template names neither weight, so \<open>format\<close> ignores both.
\<close>

definition html_head :: "ustring \<Rightarrow> ustring \<Rightarrow> ustring" where
  "html_head font_family font_size =
     [10] @ unlines
       [ustr ''<!DOCTYPE html>'',
        ustr ''<html>'',
        ustr ''<head>'',
        ustr ''  <meta charset=\"utf-8\" />'',
        ustr ''  <title>Bionic PDF</title>'',
        ustr ''  <style>'',
        ustr ''    @page {'',
        ustr ''      size: Letter;'',
        ustr ''      margin: 1in;'',
        ustr ''      margin-right: 1.5in;'',
        ustr ''    }'',
        ustr ''    body { font-family: '' @ font_family @ ustr '', sans-serif; font-size: ''
          @ font_size @ ustr ''; margin: 0; padding: 0; background: white; }'',
        ustr ''    .page { width: 100%; box-sizing: border-box; }'',
        ustr ''    .bionic-prefix { font-weight: 700; }'',
        ustr ''    .bionic-rest { font-weight: 400; }'',
        ustr ''    img { max-width: 100%; height: auto; display: block; }'',
        ustr ''    .paragraph { margin-bottom: 0.5em; }'',
        ustr ''    .image-container { position: relative; margin: 1em 0; text-align: center; clear: both; }'',
        ustr ''    table { width: 100%; border-collapse: collapse; margin-bottom: 1em; }'',
        ustr ''    td { vertical-align: top; padding: 4px; }'',
        ustr ''  </style>'',
        ustr ''</head>'',
        ustr ''<body>'',
        ustr ''<div class=\"page\">'']"

definition HTML_TAIL :: ustring where
  "HTML_TAIL = [10] @ unlines [ustr ''</div>'', ustr ''</body>'', ustr ''</html>'']"

section \<open>converter.py\<close>

definition CLASS :: "string \<Rightarrow> (string \<times> ustring) list" where
  "CLASS cls = [(''class'', ustr cls)]"

text \<open>\<open>sep.join(parts)\<close>.\<close>

fun join :: "ustring \<Rightarrow> ustring list \<Rightarrow> ustring" where
  "join sep [] = []"
| "join sep [x] = x"
| "join sep (x # y # ys) = x @ sep @ join sep (y # ys)"

text \<open>
  \<open>run.font.size.pt\<close> is the size in EMU divided by the float 12700; a size of 0 is falsy.
\<close>

definition size_pt :: "python \<Rightarrow> run \<Rightarrow> real option" where
  "size_pt py r =
     (case run_font_size r of
        None \<Rightarrow> None
      | Some s \<Rightarrow> if s = 0 then None else Some (fl py (real_of_int s / 12700)))"

text \<open>The list \<open>styles\<close> that \<open>build_paragraph_element\<close> builds for a run.\<close>

definition run_styles :: "python \<Rightarrow> run \<Rightarrow> ustring list" where
  "run_styles py r =
     (if bold r then [ustr ''font-weight: bold''] else []) @
     (if italic r then [ustr ''font-style: italic''] else []) @
     (if underline r then [ustr ''text-decoration: underline''] else []) @
     (case size_pt py r of
        None \<Rightarrow> []
      | Some pt \<Rightarrow> [ustr ''font-size: '' @ ustr (float_str py pt) @ ustr ''pt''])"

text \<open>\<open>span = E.SPAN(text); if styles: span.set("style", "; ".join(styles))\<close>.\<close>

definition text_span :: "ustring list \<Rightarrow> ustring \<Rightarrow> elem" where
  "text_span styles text =
     (let span = Elem ''span'' [] (Some text) [] None
      in if styles \<noteq> [] then set_elem span ''style'' (join (ustr ''; '') styles) else span)"

definition image_container :: "string \<Rightarrow> elem" where
  "image_container img_src =
     append_child (Elem ''div'' (CLASS ''image-container'') None [] None)
       (Elem ''img'' [(''src'', ustr img_src), (''alt'', ustr ''Document Image'')] None [] None)"

text \<open>
  The loop over the drawings of a run. The position that \<open>get_image_position\<close> computes is
  not used by the source, so it is not modelled.
\<close>

fun add_drawings :: "(string \<rightharpoonup> string) \<Rightarrow> drawing list \<Rightarrow> elem \<Rightarrow> elem" where
  "add_drawings images_dict [] p_div = p_div"
| "add_drawings images_dict (d # ds) p_div =
     add_drawings images_dict ds
       (case blip d of
          Some (Some image_rel_id) \<Rightarrow>
            (if image_rel_id \<noteq> []
             then (case images_dict image_rel_id of
                     Some img_src \<Rightarrow> append_child p_div (image_container img_src)
                   | None \<Rightarrow> p_div)
             else p_div)
        | _ \<Rightarrow> p_div)"

text \<open>
  The text of a run. The children of the parsed \<open>div\<close> are moved into the styled span by
  the first loop over \<open>dummy\<close> (an element moves with its tail), so the second loop finds
  none; the text before the first child is copied when it is non-empty. An exception of the
  parser ends in the same fallback as a null result of \<open>process_text_node\<close>.
\<close>

definition add_text :: "python \<Rightarrow> 'p libs \<Rightarrow> real \<Rightarrow> run \<Rightarrow> elem \<Rightarrow> elem" where
  "add_text py libs bold_ratio r p_div =
     (let text = run_text r
      in if text = [] then p_div
         else
           let styles = run_styles py r;
               fallback = append_child p_div (text_span styles text)
           in case process_text_node py text bold_ratio of
                None \<Rightarrow> fallback
              | Some bionic_html \<Rightarrow>
                  if bionic_html = [] then fallback
                  else
                    (case html_fromstring libs (ustr ''<div>'' @ bionic_html @ ustr ''</div>'') of
                       Inl e \<Rightarrow> fallback
                     | Inr dummy \<Rightarrow>
                         let container_span = Elem ''span'' [] None [] None;
                             container_span1 =
                               (if styles \<noteq> []
                                then set_elem container_span ''style'' (join (ustr ''; '') styles)
                                else container_span);
                             container_span2 = foldl append_child container_span1 (children dummy);
                             container_span3 =
                               (if text_of (etext dummy) \<noteq> []
                                then Elem (tag container_span2) (attrib container_span2)
                                       (etext dummy) (children container_span2)
                                       (etail container_span2)
                                else container_span2)
                         in append_child p_div container_span3))"

definition add_line_break :: "run \<Rightarrow> elem \<Rightarrow> elem" where
  "add_line_break r p_div =
     (if line_break r then append_child p_div (Elem ''br'' [] None [] None) else p_div)"

text \<open>The body of the loop over \<open>paragraph.runs\<close>.\<close>

definition process_run ::
  "python \<Rightarrow> 'p libs \<Rightarrow> (string \<rightharpoonup> string) \<Rightarrow> real \<Rightarrow> elem \<Rightarrow> run \<Rightarrow> elem"
where
  "process_run py libs images_dict bold_ratio p_div r =
     add_line_break r (add_text py libs bold_ratio r (add_drawings images_dict (drawings r) p_div))"

definition build_paragraph_element ::
  "python \<Rightarrow> 'p libs \<Rightarrow> docx_paragraph \<Rightarrow> (string \<rightharpoonup> string) \<Rightarrow> real \<Rightarrow> elem"
where
  "build_paragraph_element py libs paragraph images_dict bold_ratio =
     (let style_align =
            (if alignment paragraph = Some CENTER then ustr ''text-align: center;''
             else if alignment paragraph = Some RIGHT then ustr ''text-align: right;''
             else []);
          p_div = Elem ''div'' (CLASS ''paragraph'') None [] None;
          p_div1 = (if style_align \<noteq> [] then set_elem p_div ''style'' style_align else p_div)
      in foldl (process_run py libs images_dict bold_ratio) p_div1 (runs paragraph))"

definition process_table ::
  "python \<Rightarrow> 'p libs \<Rightarrow> table \<Rightarrow> (string \<rightharpoonup> string) \<Rightarrow> real \<Rightarrow> elem"
where
  "process_table py libs tbl images_dict bold_ratio =
     Elem ''table'' [] None
       (map (\<lambda>row. Elem ''tr'' [] None
               (map (\<lambda>cell. Elem ''td'' [] None
                       (map (\<lambda>p. build_paragraph_element py libs p images_dict bold_ratio) cell)
                       None)
                  row)
               None)
          tbl)
       None"

text \<open>\<open>doc.paragraphs\<close> and \<open>doc.tables\<close>: the top-level paragraphs and tables.\<close>

definition doc_paragraphs :: "document \<Rightarrow> docx_paragraph list" where
  "doc_paragraphs doc = concat (map (\<lambda>e. case e of Body_p p \<Rightarrow> [p] | _ \<Rightarrow> []) (body doc))"

definition doc_tables :: "document \<Rightarrow> table list" where
  "doc_tables doc = concat (map (\<lambda>e. case e of Body_tbl t \<Rightarrow> [t] | _ \<Rightarrow> []) (body doc))"

text \<open>
  \<open>Counter.most_common(1)\<close>: the key counted most often, the first one inserted among equals.
\<close>

definition most_common :: "'a list \<Rightarrow> 'a option" where
  "most_common xs =
     (case xs of
        [] \<Rightarrow> None
      | x # _ \<Rightarrow>
          Some (foldl (\<lambda>best y. if count_list xs y > count_list xs best then y else best) x xs))"

definition paragraph_sizes :: "python \<Rightarrow> docx_paragraph list \<Rightarrow> real list" where
  "paragraph_sizes py ps =
     concat (map (\<lambda>p. concat (map (\<lambda>r. case size_pt py r of None \<Rightarrow> [] | Some pt \<Rightarrow> [pt])
                                 (runs p))) ps)"

definition get_dominant_font_size :: "python \<Rightarrow> document \<Rightarrow> ustring" where
  "get_dominant_font_size py doc =
     (let sizes = paragraph_sizes py (doc_paragraphs doc) @
                  paragraph_sizes py (concat (concat (concat (doc_tables doc))))
      in case most_common sizes of
           None \<Rightarrow> ustr ''11pt''
         | Some most_common_pt \<Rightarrow> ustr (float_str py most_common_pt) @ ustr ''pt'')"

text \<open>The loop over \<open>doc.element.body\<close> that builds \<open>body_content\<close>.\<close>

definition body_content ::
  "python \<Rightarrow> 'p libs \<Rightarrow> (string \<rightharpoonup> string) \<Rightarrow> real \<Rightarrow> document \<Rightarrow> elem list"
where
  "body_content py libs images_dict bold_ratio doc =
     concat (map (\<lambda>e. case e of
                         Body_p p \<Rightarrow> [build_paragraph_element py libs p images_dict bold_ratio]
                       | Body_tbl t \<Rightarrow> [process_table py libs t images_dict bold_ratio]
                       | Body_other \<Rightarrow> [])
               (body doc))"

definition CHUNK_SIZE :: nat where
  "CHUNK_SIZE = 100"

text \<open>
  \<open>chunk_html = head; for e in elements: chunk_html += html.tostring(e); chunk_html += tail\<close>.
\<close>

definition chunk_html :: "'p libs \<Rightarrow> ustring \<Rightarrow> ustring \<Rightarrow> elem list \<Rightarrow> ustring" where
  "chunk_html libs head tail elements =
     foldl (\<lambda>h e. h @ html_tostring libs e) head elements @ tail"

text \<open>
  The loop \<open>for i, elem in enumerate(body_content)\<close>, on the state
  \<open>(chunks, current_chunk_elements)\<close>.
\<close>

fun chunk_loop ::
  "'p libs \<Rightarrow> ustring \<Rightarrow> ustring \<Rightarrow> elem list \<Rightarrow> ustring list \<times> elem list \<Rightarrow>
     ustring list \<times> elem list"
where
  "chunk_loop libs head tail [] st = st"
| "chunk_loop libs head tail (e # es) (chunks, current_chunk_elements) =
     (let current1 = current_chunk_elements @ [e]
      in if length current1 \<ge> CHUNK_SIZE
         then chunk_loop libs head tail es (chunks @ [chunk_html libs head tail current1], [])
         else chunk_loop libs head tail es (chunks, current1))"

text \<open>The part of \<open>pdf_to_html\<close> from "Chunk the content" to the end.\<close>

definition make_chunks :: "'p libs \<Rightarrow> ustring \<Rightarrow> ustring \<Rightarrow> elem list \<Rightarrow> ustring list" where
  "make_chunks libs head tail content =
     (let (chunks, current_chunk_elements) = chunk_loop libs head tail content ([], []);
          chunks1 = (if current_chunk_elements \<noteq> []
                     then chunks @ [chunk_html libs head tail current_chunk_elements]
                     else chunks);
          chunks2 = (if chunks1 = [] then chunks1 @ [head @ tail] else chunks1)
      in chunks2)"

text \<open>
  \<open>pdf_to_html\<close>. The conversion to DOCX in a temporary directory and the parse of the
  DOCX are the one call \<open>read_document\<close>; its exception is logged and raised again. The
  second component is the log.
\<close>

definition pdf_to_html ::
  "python \<Rightarrow> 'p libs \<Rightarrow> path \<Rightarrow> ustring \<Rightarrow> real \<Rightarrow> (string + ustring list) \<times> log_entry list"
where
  "pdf_to_html py libs pdf_path font_family bold_ratio =
     (case read_document libs pdf_path of
        Inl e \<Rightarrow> (Inl e, [Error (''pdf2docx failed: '' @ e)])
      | Inr doc \<Rightarrow>
          let (images_dict, logged) = extract_images_from_doc py libs doc;
              font_size = get_dominant_font_size py doc;
              content = body_content py libs images_dict bold_ratio doc;
              head = html_head font_family font_size;
              tail = HTML_TAIL
          in (Inr (make_chunks libs head tail content), logged))"

section \<open>renderer.py\<close>

text \<open>
  \<open>render_chunk\<close>, the worker: \<open>mkstemp\<close> creates an empty file under the next temporary name
  (and raises when there is none), \<open>write_pdf\<close> fills it. Any exception is caught and the
  worker returns \<open>None\<close>; the file that \<open>mkstemp\<close> created stays.
\<close>

definition render_chunk :: "'p libs \<Rightarrow> 'p world \<Rightarrow> ustring \<Rightarrow> path option \<times> 'p world" where
  "render_chunk libs w html_content =
     (case tmp_names w of
        [] \<Rightarrow> (None, w)
      | temp_path # names \<Rightarrow>
          let w1 = w\<lparr>files := (files w)(temp_path \<mapsto> Empty_file), tmp_names := names\<rparr>
          in case write_pdf libs html_content of
               Inl e \<Rightarrow> (None, w1)
             | Inr pages \<Rightarrow> (Some temp_path, w1\<lparr>files := (files w1)(temp_path \<mapsto> Pdf_file pages)\<rparr>))"

text \<open>
  \<open>pool.map(render_chunk, html_chunks)\<close>. The workers take up the chunks in the order
  \<open>order\<close>, a list of chunk indices that the scheduler decides; the result of chunk \<open>i\<close> is
  stored under \<open>i\<close>, and \<open>pool.map\<close> returns the results in the order of the chunks.
\<close>

fun run_workers ::
  "'p libs \<Rightarrow> ustring list \<Rightarrow> nat list \<Rightarrow> (nat \<rightharpoonup> path option) \<times> 'p world \<Rightarrow>
     (nat \<rightharpoonup> path option) \<times> 'p world"
where
  "run_workers libs html_chunks [] st = st"
| "run_workers libs html_chunks (i # order) (results, w) =
     (if i < length html_chunks
      then (case render_chunk libs w (html_chunks ! i) of
              (p, w') \<Rightarrow> run_workers libs html_chunks order (results(i \<mapsto> p), w'))
      else run_workers libs html_chunks order (results, w))"

definition pool_map ::
  "'p libs \<Rightarrow> nat list \<Rightarrow> 'p world \<Rightarrow> ustring list \<Rightarrow> path option list \<times> 'p world"
where
  "pool_map libs order w html_chunks =
     (case run_workers libs html_chunks order (Map.empty, w) of
        (results, w') \<Rightarrow>
          (map (\<lambda>i. case results i of None \<Rightarrow> None | Some p \<Rightarrow> p) [0..<length html_chunks], w'))"

text \<open>
  The merge loop: \<open>fitz.open(temp_pdf)\<close> raises on a file that is not a PDF;
  \<open>insert_pdf\<close> appends its pages; \<open>os.remove\<close> deletes it.
\<close>

fun merge_loop ::
  "path list \<Rightarrow> 'p list \<times> 'p world \<Rightarrow> (string \<times> 'p world) + ('p list \<times> 'p world)"
where
  "merge_loop [] st = Inr st"
| "merge_loop (temp_pdf # rest) (doc, w) =
     (case files w temp_pdf of
        Some (Pdf_file part) \<Rightarrow>
          merge_loop rest (doc @ part, w\<lparr>files := (files w)(temp_pdf := None)\<rparr>)
      | _ \<Rightarrow> Inl (''cannot open '' @ temp_pdf, w))"

text \<open>
  \<open>render_pdf\<close>. \<open>doc.save(output_path)\<close> writes to the output path itself; what a failing
  save leaves there is the library's.
\<close>

definition render_pdf ::
  "'p libs \<Rightarrow> nat list \<Rightarrow> 'p world \<Rightarrow> ustring list \<Rightarrow> path \<Rightarrow> (string + bool) \<times> 'p world"
where
  "render_pdf libs order w html_chunks output_path =
     (case pool_map libs order w html_chunks of
        (temp_pdfs, w1) \<Rightarrow>
          if None \<in> set temp_pdfs then (Inl ''One or more chunks failed to render.'', w1)
          else
            (case merge_loop (concat (map (\<lambda>p. case p of None \<Rightarrow> [] | Some t \<Rightarrow> [t]) temp_pdfs))
                    ([], w1) of
               Inl (e, w2) \<Rightarrow> (Inl e, w2)
             | Inr (doc, w2) \<Rightarrow>
                 (case fitz_save libs doc output_path of
                    Saved \<Rightarrow> (Inr True, w2\<lparr>files := (files w2)(output_path \<mapsto> Pdf_file doc)\<rparr>)
                  | Save_failed \<Rightarrow> (Inl ''save failed'', w2)
                  | Save_failed_partial \<Rightarrow>
                      (Inl ''save failed'', w2\<lparr>files := (files w2)(output_path \<mapsto> Partial_file)\<rparr>))))"

section \<open>cli.py\<close>

record args =
  arg_input :: path
  arg_output :: "path option"
  arg_bold_ratio :: real
  arg_font :: ustring
  arg_verbose :: bool

text \<open>
  \<open>os.path.splitext(p)[0]\<close>: the path without its extension. The extension starts at the
  last dot of the last component, unless that component has only dots before it.
\<close>

definition splitext_base :: "path \<Rightarrow> path" where
  "splitext_base p =
     (let name = rev (takeWhile (\<lambda>c. c \<noteq> CHR ''/'') (rev p));
          ext = rev (takeWhile (\<lambda>c. c \<noteq> CHR ''.'') (rev name));
          stem = take (length name - length ext - 1) name
      in if CHR ''.'' \<in> set name \<and> (\<exists>c \<in> set stem. c \<noteq> CHR ''.'')
         then take (length p - length ext - 1) p else p)"

text \<open>
  \<open>main\<close>, for absolute paths (\<open>os.path.abspath\<close> leaves them as they are). The result is the
  exit status of the process and the file system it leaves.
\<close>

definition main :: "python \<Rightarrow> 'p libs \<Rightarrow> nat list \<Rightarrow> 'p world \<Rightarrow> args \<Rightarrow> int \<times> 'p world" where
  "main py libs order w a =
     (let input_path = arg_input a
      in if files w input_path = None then (1, w)
         else
           let output_path =
                 (case arg_output a of
                    None \<Rightarrow> splitext_base input_path @ ''_bionic.pdf''
                  | Some p \<Rightarrow> if p = [] then splitext_base input_path @ ''_bionic.pdf'' else p)
           in case fst (pdf_to_html py libs input_path (arg_font a) (arg_bold_ratio a)) of
                Inl e \<Rightarrow> (1, w)
              | Inr html_chunks \<Rightarrow>
                  (case render_pdf libs order w html_chunks output_path of
                     (Inl e, w') \<Rightarrow> (1, w')
                   | (Inr ok, w') \<Rightarrow> (0, w')))"

section \<open>Auxiliary notions and sample inputs\<close>

text \<open>The pages that the markup renderer produces for a chunk, and whether it produces any.\<close>

definition pages_of :: "'p libs \<Rightarrow> ustring \<Rightarrow> 'p list" where
  "pages_of libs html_content = (case write_pdf libs html_content of Inl e \<Rightarrow> [] | Inr pages \<Rightarrow> pages)"

definition renders :: "'p libs \<Rightarrow> ustring \<Rightarrow> bool" where
  "renders libs html_content = (case write_pdf libs html_content of Inl e \<Rightarrow> False | Inr pages \<Rightarrow> True)"

text \<open>
  The paths that \<open>render_pdf\<close> merges, once no worker has returned \<open>None\<close>; whether
  \<open>fitz.open\<close> opens a path, and the pages it then reads; whether the merge loop can open
  every one of its paths (it removes each after reading it, so a path that comes twice cannot
  be opened the second time); and the document that the loop then builds, the pages of the
  chunk files in the order of the chunks.
\<close>

definition temp_paths :: "path option list \<Rightarrow> path list" where
  "temp_paths temp_pdfs = concat (map (\<lambda>p. case p of None \<Rightarrow> [] | Some t \<Rightarrow> [t]) temp_pdfs)"

definition opens :: "'p world \<Rightarrow> path \<Rightarrow> bool" where
  "opens w t = (case files w t of Some (Pdf_file part) \<Rightarrow> True | _ \<Rightarrow> False)"

definition pages_at :: "'p world \<Rightarrow> path \<Rightarrow> 'p list" where
  "pages_at w t = (case files w t of Some (Pdf_file part) \<Rightarrow> part | _ \<Rightarrow> [])"

definition mergeable :: "'p world \<Rightarrow> path list \<Rightarrow> bool" where
  "mergeable w ts = (distinct ts \<and> list_all (opens w) ts)"

definition merged_document :: "'p world \<Rightarrow> path list \<Rightarrow> 'p list" where
  "merged_document w ts = concat (map (pages_at w) ts)"

text \<open>
  The invariant of the worker pool: the temporary names still to hand out are distinct, every
  stored result is a path that is no longer among them and holds the pages of its chunk, and
  no path is stored for two chunks.
\<close>

definition workers_inv :: "'p libs \<Rightarrow> ustring list \<Rightarrow> (nat \<rightharpoonup> path option) \<Rightarrow> 'p world \<Rightarrow> bool" where
  "workers_inv libs cs res w =
     (distinct (tmp_names w) \<and>
      (\<forall>i p. res i = Some p \<longrightarrow>
         (\<exists>t. p = Some t \<and> t \<notin> set (tmp_names w) \<and>
              files w t = Some (Pdf_file (pages_of libs (cs ! i))))) \<and>
      (\<forall>i j t. res i = Some (Some t) \<and> res j = Some (Some t) \<longrightarrow> i = j))"

text \<open>
  Sample collaborators, on which the theorems are evaluated: a document of one paragraph whose
  only run holds a drawing, an image that does not decode, a markup parser that raises, a
  renderer that returns the chunk as its one page, and a save that succeeds. The variants
  differ from them in one call each.
\<close>

definition sample_document :: document where
  "sample_document =
     \<lparr>body = [Body_p \<lparr>alignment = None,
                       runs = [\<lparr>run_text = ustr ''Hi'', bold = True, italic = False,
                                underline = False, run_font_size = None,
                                drawings = [\<lparr>blip = Some (Some ''rId1'')\<rparr>],
                                line_break = False\<rparr>]\<rparr>],
      rels = [\<lparr>reltype = ''http://schemas.openxmlformats.org/officeDocument/2006/relationships/image'',
               blob = [0], rId = ''rId1''\<rparr>]\<rparr>"

definition sample_libs :: "ustring libs" where
  "sample_libs =
     \<lparr>read_document = (\<lambda>p. Inr sample_document),
      image_open = (\<lambda>b. Inl ''cannot identify image file''),
      image_save = (\<lambda>im f. Inr []),
      b64encode = (\<lambda>b. []),
      html_fromstring = (\<lambda>s. Inl ''no parser''),
      html_tostring = (\<lambda>e. ustr (tag e)),
      write_pdf = (\<lambda>h. Inr [h]),
      fitz_save = (\<lambda>d p. Saved)\<rparr>"

definition sample_world :: "ustring world" where
  "sample_world =
     \<lparr>files = [''/in.pdf'' \<mapsto> Other_file],
      tmp_names = [''/tmp/a.pdf'', ''/tmp/b.pdf'', ''/tmp/c.pdf'']\<rparr>"

text \<open>A file system in which the second temporary name is the first one again.\<close>

definition reused_name_world :: "ustring world" where
  "reused_name_world =
     \<lparr>files = [''/in.pdf'' \<mapsto> Other_file],
      tmp_names = [''/tmp/a.pdf'', ''/tmp/a.pdf'']\<rparr>"



definition partial_save_libs :: "ustring libs" where
  "partial_save_libs = sample_libs\<lparr>fitz_save := (\<lambda>d p. Save_failed_partial)\<rparr>"

definition failing_render_libs :: "ustring libs" where
  "failing_render_libs =
     sample_libs\<lparr>write_pdf :=
       (\<lambda>h. if h = ustr ''chunk 2'' then Inl ''render error'' else Inr [h])\<rparr>"


text \<open>
  What libxml2 returns for the markup of the run text \<open></b>\<close>: its parser skips the
  \<open></\<close> that no tag name follows, reads the span, and keeps the \<open>>\<close> as the tail of
  the span.
\<close>

definition markup_libs :: "ustring libs" where
  "markup_libs =
     sample_libs\<lparr>html_fromstring :=
       (\<lambda>s. if s = ustr ''<div></<span class=\"bionic-prefix\">b</span>></div>''
            then Inr (Elem ''div'' [] None
                        [Elem ''span'' [(''class'', ustr ''bionic-prefix'')] (Some (ustr ''b'')) []
                           (Some (ustr ''>''))]
                        None)
            else Inl ''not modelled'')\<rparr>"

definition thin_image_libs :: "ustring libs" where
  "thin_image_libs =
     sample_libs\<lparr>image_open :=
       (\<lambda>b. Inr \<lparr>mode = ''RGB'', transparency = False, width = 2400, height = 1\<rparr>)\<rparr>"

text \<open>The consecutive slices of at most \<open>n\<close> elements of a list.\<close>

function slices :: "nat \<Rightarrow> 'a list \<Rightarrow> 'a list list" where
  "slices n xs = (if n = 0 \<or> xs = [] then [] else take n xs # slices n (drop n xs))"
  by pat_completeness auto
termination
  by (relation "measure (\<lambda>(n, xs). length xs)") auto

declare slices.simps [simp del]

text \<open>
  The elements that the drawings of a run, and a whole run, add to the paragraph element; and
  the chunks that \<open>pdf_to_html\<close> returns for a document.
\<close>

definition drawing_elements :: "(string \<rightharpoonup> string) \<Rightarrow> drawing list \<Rightarrow> elem list" where
  "drawing_elements images_dict ds =
     children (add_drawings images_dict ds (Elem ''div'' [] None [] None))"



section \<open>Properties of the emphasis transform\<close>

subsection \<open>Stripping markup from concatenations\<close>

lemma strip_tags_append:
  "strip_tags b (xs @ ys) = strip_tags b xs @ strip_tags (tag_state b xs) ys"
  by (induction b xs rule: strip_tags.induct) auto

lemma tag_state_append: "tag_state b (xs @ ys) = tag_state (tag_state b xs) ys"
  by (induction b xs rule: tag_state.induct) auto

lemma strip_tags_text: "60 \<notin> set s \<Longrightarrow> strip_tags False s = s"
  by (induction s) auto

lemma tag_state_text: "60 \<notin> set s \<Longrightarrow> tag_state False s = False"
  by (induction s) auto

lemma strip_tags_no_lt: "60 \<notin> set (strip_tags b s)"
  by (induction b s rule: strip_tags.induct) auto

lemma markup_stripped:
  "strip_tags False open_prefix = []" "tag_state False open_prefix = False"
  "strip_tags False open_rest = []" "tag_state False open_rest = False"
  "strip_tags False close_span = []" "tag_state False close_span = False"
  by (simp_all add: open_prefix_def open_rest_def close_span_def ustr_def)

lemma wrap_word_plain:
  assumes "60 \<notin> set word"
  shows "strip_tags False (wrap_word py word r) = word"
    and "tag_state False (wrap_word py word r) = False"
proof -
  have a: "60 \<notin> set (take n word)" "60 \<notin> set (drop n word)" for n
    using assms by (auto dest: in_set_takeD in_set_dropD)
  show "strip_tags False (wrap_word py word r) = word"
    using assms a
    by (simp add: wrap_word_def Let_def strip_tags_append tag_state_append markup_stripped
        strip_tags_text tag_state_text)
  show "tag_state False (wrap_word py word r) = False"
    using assms a
    by (simp add: wrap_word_def Let_def tag_state_append markup_stripped tag_state_text)
qed

lemma emphasis_loop_plain:
  assumes "60 \<notin> set text"
  shows "drop i text = suf \<Longrightarrow> li \<le> i \<Longrightarrow> tag_state False (concat html) = False \<Longrightarrow>
     emphasis_loop py r text (finditer_words w i suf) (html, li) = (h, l) \<Longrightarrow>
     tag_state False (concat h) = False \<and>
     strip_tags False (concat h) @ drop l text = strip_tags False (concat html) @ drop li text"
proof (induction w i suf arbitrary: html li rule: finditer_words.induct)
  case (1 w i)
  then show ?case by simp
next
  case (2 w i c cs)
  show ?case
  proof (cases "w c")
    case False
    have "drop (Suc i) text = cs"
      using "2.prems"(1) by (metis drop_Suc drop_tl list.sel(3) tl_drop)
    show ?thesis
      using "2.IH"(2)[OF False \<open>drop (Suc i) text = cs\<close>, of li html] "2.prems" False
      by simp
  next
    case True
    define n where "n = Suc (length (takeWhile w cs))"
    define word where "word = slice text i (i + n)"
    define gap where "gap = slice text li i"
    define html1 where "html1 = (if i > li then html @ [gap] else html)"
    define html2 where "html2 = html1 @ [wrap_word py word r]"
    have word: "word = c # takeWhile w cs"
      using "2.prems"(1) by (simp add: word_def slice_def n_def takeWhile_eq_take[symmetric])
    have nxt: "drop (i + n) text = dropWhile w cs"
    proof -
      have "drop (i + n) text = drop n (drop i text)" by (simp add: add.commute)
      also have "\<dots> = drop (length (takeWhile w cs)) cs" using "2.prems"(1) by (simp add: n_def)
      also have "\<dots> = dropWhile w cs" by (simp add: dropWhile_eq_drop)
      finally show ?thesis .
    qed
    have nw: "60 \<notin> set word" "60 \<notin> set gap"
      using assms unfolding word_def gap_def slice_def
      by (auto dest!: in_set_takeD in_set_dropD)
    have gapeq: "gap @ word @ drop (i + n) text = drop li text"
    proof -
      have a: "take (i - li) (drop li text) @ drop (i - li) (drop li text) = drop li text"
        by (rule append_take_drop_id)
      have b: "drop (i - li) (drop li text) = drop i text" using "2.prems"(2) by simp
      have c: "take n (drop i text) @ drop n (drop i text) = drop i text"
        by (rule append_take_drop_id)
      have d: "drop n (drop i text) = drop (i + n) text" by (simp add: add.commute)
      show ?thesis
        unfolding gap_def word_def slice_def using a b c d by (simp del: drop_drop)
    qed
    have gap_empty: "\<not> i > li \<Longrightarrow> gap = []" by (simp add: gap_def slice_def)
    have st1: "tag_state False (concat html1) = False"
      using "2.prems"(3) nw by (simp add: html1_def tag_state_append tag_state_text)
    have st2: "tag_state False (concat html2) = False"
      using st1 nw by (simp add: html2_def tag_state_append wrap_word_plain)
    have pl1: "strip_tags False (concat html1) = strip_tags False (concat html) @ gap"
      using "2.prems"(3) nw gap_empty
      by (simp add: html1_def strip_tags_append strip_tags_text)
    have pl2: "strip_tags False (concat html2) = strip_tags False (concat html) @ gap @ word"
      using st1 pl1 nw by (simp add: html2_def strip_tags_append wrap_word_plain)
    have run: "emphasis_loop py r text (finditer_words w (i + n) (dropWhile w cs)) (html2, i + n) = (h, l)"
      using "2.prems"(4) True
      by (auto simp: Let_def n_def html2_def html1_def word_def gap_def split: if_splits)
    have "tag_state False (concat h) = False \<and>
        strip_tags False (concat h) @ drop l text =
        strip_tags False (concat html2) @ drop (i + n) text"
      using "2.IH"(1)[OF True, of "i + n" html2] nxt st2 run by (simp add: n_def)
    then show ?thesis using pl2 gapeq by simp
  qed
qed

lemma process_text_node_plain:
  assumes "py_strip py t \<noteq> []" and "60 \<notin> set t"
  shows "map_option plain_text (process_text_node py t r) = Some t"
proof -
  obtain h l where run:
    "emphasis_loop py r t (finditer_words (is_word_char py) 0 t) ([], 0) = (h, l)"
    by (cases "emphasis_loop py r t (finditer_words (is_word_char py) 0 t) ([], 0)")
  from emphasis_loop_plain[OF assms(2), of 0 t 0 "[]" py r "is_word_char py" h l] run
  have inv: "tag_state False (concat h) = False"
    "strip_tags False (concat h) @ drop l t = t"
    by simp_all
  have "60 \<notin> set (drop l t)" using assms(2) by (auto dest: in_set_dropD)
  then have "plain_text (concat (if l < length t then h @ [drop l t] else h)) = t"
    using inv by (auto simp: plain_text_def strip_tags_append strip_tags_text)
  then show ?thesis using assms(1) run by (simp add: process_text_node_def)
qed

lemma dropWhile_all: "(\<forall>x\<in>set (dropWhile P xs). P x) = (\<forall>x\<in>set xs. P x)"
proof
  assume a: "\<forall>x\<in>set (dropWhile P xs). P x"
  have "dropWhile P xs = []"
  proof (rule ccontr)
    assume n: "dropWhile P xs \<noteq> []"
    then have "\<not> P (hd (dropWhile P xs))" by (rule hd_dropWhile)
    moreover have "hd (dropWhile P xs) \<in> set (dropWhile P xs)" using n by simp
    ultimately show False using a by blast
  qed
  then show "\<forall>x\<in>set xs. P x" by (simp add: dropWhile_eq_Nil_conv)
next
  assume "\<forall>x\<in>set xs. P x"
  then show "\<forall>x\<in>set (dropWhile P xs). P x" by (auto dest: set_dropWhileD)
qed

lemma py_strip_empty: "(py_strip py t = []) = (\<forall>c\<in>set t. is_space py c)"
  by (simp add: py_strip_def dropWhile_eq_Nil_conv dropWhile_all)

subsection \<open>Round trip of the emphasis transform\<close>

text \<open>
  Claim C1, as the code has it. For every text that is not empty or whitespace-only and
  that contains no \<open><\<close>, and for every ratio in \<open>(0, 1]\<close>, \<open>process_text_node\<close> returns
  a fragment whose plain-text projection is the text itself: every character of every word
  and of every non-word span is kept, in order. The two restrictions on the text are needed:
  on whitespace-only or empty text the function returns \<open>None\<close>, so there is nothing to
  project, and the function copies a \<open><\<close> of the text into the fragment unescaped, where
  it reads as the start of a tag (by \<open>strip_tags_no_lt\<close> no projection holds a \<open><\<close>).
  The ratio stays within the range that the claim gives, where the product
  \<open>len(word) * bold_ratio\<close> is a finite float and \<open>int\<close> does not raise.
\<close>

theorem emphasis_round_trip:
  assumes "\<exists>c\<in>set t. \<not> is_space py c" and "60 \<notin> set t"
    and "0 < r" and "r \<le> 1"
  shows "\<exists>h. process_text_node py t r = Some h \<and> plain_text h = t"
proof -
  have "py_strip py t \<noteq> []" using assms(1) by (simp add: py_strip_empty)
  from process_text_node_plain[OF this assms(2), of r] show ?thesis
    by (cases "process_text_node py t r") auto
qed

theorem emphasis_round_trip_witness:
  "\<exists>h. process_text_node ascii_runtime (ustr ''a, b'') (1 / 2) = Some h
     \<and> plain_text h = ustr ''a, b''"
  using emphasis_round_trip[of "ustr ''a, b''" ascii_runtime "1 / 2"]
  by (simp add: is_space_def ascii_space_def ustr_def)

text \<open>
  The claim as stated, for every text, fails twice: a text of one space has no output at
  all, and the text \<open></b>\<close> comes back as \<open>b>\<close>.
\<close>

theorem emphasis_round_trip_counterexample:
  "process_text_node ascii_runtime (ustr '' '') (1 / 2) = None
   \<and> process_text_node ascii_runtime (ustr ''</b>'') (1 / 2) =
       Some (ustr ''</<span class=\"bionic-prefix\">b</span>>'')
   \<and> plain_text (ustr ''</<span class=\"bionic-prefix\">b</span>>'') = ustr ''b>''
   \<and> ustr ''b>'' \<noteq> ustr ''</b>''"
  by (simp add: process_text_node_def py_strip_def is_space_def ascii_space_def
      is_word_char_def ascii_alnum_def wrap_word_def slice_def plain_text_def
      ascii_runtime_def ustr_def open_prefix_def open_rest_def close_span_def)

subsection \<open>The split point\<close>

lemma is_binary64_nat:
  assumes "n \<le> 2 ^ 53"
  shows "is_binary64 (real n)"
proof (cases "n < 2 ^ 53")
  case True
  have "\<bar>int n\<bar> < 2 ^ 53 \<and> (0::nat) \<le> 971 \<and> (0::nat) \<le> 1074 \<and>
        real n = real_of_int (int n) * 2 ^ 0 / 2 ^ 0" using True by simp
  then show ?thesis unfolding is_binary64_def by blast
next
  case False
  then have n: "n = 2 ^ 53" using assms by simp
  have "\<bar>2 ^ 52\<bar> < (2::int) ^ 53 \<and> (1::nat) \<le> 971 \<and> (0::nat) \<le> 1074 \<and>
        real n = real_of_int (2 ^ 52) * 2 ^ 1 / 2 ^ 0" by (simp add: n)
  then show ?thesis unfolding is_binary64_def by blast
qed

lemma nearest_exact:
  assumes "rounds_to_nearest f" "is_binary64 d"
  shows "f d = d"
proof -
  have "\<bar>f d - d\<bar> \<le> \<bar>d - d\<bar>" using assms unfolding rounds_to_nearest_def by blast
  then show ?thesis by simp
qed

lemma binary64_below_one:
  assumes "is_binary64 r" "0 < r" "r < 1"
  shows "r \<le> 1 - 1 / 2 ^ 53"
proof -
  obtain m a b where m: "\<bar>m\<bar> < (2::int) ^ 53" and r: "r = real_of_int m * 2 ^ a / 2 ^ b"
    using assms(1) unfolding is_binary64_def by blast
  have mpos: "0 < m"
  proof (rule ccontr)
    assume "\<not> 0 < m"
    then have "real_of_int m \<le> 0" by simp
    then have "real_of_int m * 2 ^ a \<le> 0" by (simp add: mult_le_0_iff)
    then have "r \<le> 0" unfolding r by (simp add: divide_le_0_iff)
    then show False using assms(2) by simp
  qed
  have mlt: "real_of_int m < 2 ^ 53" using m by simp
  show ?thesis
  proof (cases "b \<le> a + 53")
    case True
    define j where "j = m * 2 ^ (a + 53 - b)"
    have pw: "(2::real) ^ (a + 53) / 2 ^ b = 2 ^ (a + 53 - b)"
      using True by (simp add: power_diff)
    have "r * 2 ^ 53 = real_of_int m * (2 ^ (a + 53) / 2 ^ b)"
      by (simp add: r power_add)
    then have rj: "r * 2 ^ 53 = real_of_int j" unfolding pw by (simp add: j_def)
    have "r * 2 ^ 53 < 1 * 2 ^ 53" using assms(3) by (intro mult_strict_right_mono) simp_all
    then have "real_of_int j < 2 ^ 53" using rj by simp
    then have "j < 2 ^ 53" by simp
    then have "j \<le> 2 ^ 53 - 1" by simp
    then have "real_of_int j \<le> real_of_int (2 ^ 53 - 1)" by (simp only: of_int_le_iff)
    then have "r * 2 ^ 53 \<le> 2 ^ 53 - 1" using rj by simp
    then have "r \<le> (2 ^ 53 - 1) / 2 ^ 53" by (simp add: pos_le_divide_eq)
    then show ?thesis by (simp add: diff_divide_distrib)
  next
    case False
    define c where "c = b - (a + 54)"
    have b: "b = a + 54 + c" using False by (simp add: c_def)
    have r2: "r = real_of_int m / (2 ^ 54 * 2 ^ c)"
      by (simp add: r b power_add)
    have "(1::real) \<le> 2 ^ c" by simp
    then have "(2::real) ^ 54 * 1 \<le> 2 ^ 54 * 2 ^ c" by (intro mult_left_mono) simp_all
    then have "real_of_int m / (2 ^ 54 * 2 ^ c) \<le> real_of_int m / 2 ^ 54"
      using mpos by (intro divide_left_mono) simp_all
    also have "\<dots> < 2 ^ 53 / 2 ^ 54" using mlt by (intro divide_strict_right_mono) simp_all
    finally have "r < 1 / 2" unfolding r2 by simp
    then show ?thesis by simp
  qed
qed

lemma nearest_below:
  assumes near: "rounds_to_nearest f" and L: "2 \<le> L" "L \<le> 2 ^ 53"
    and x: "x \<le> real L - real L / 2 ^ 53"
  shows "f x < real L"
proof -
  obtain e where e: "2 ^ e < L" "L \<le> 2 ^ (e + 1)"
    using ex_power_ivl2[of 2 L] L(1) by auto
  have "(2::nat) ^ e < 2 ^ 53" using e(1) L(2) by simp
  then have e53: "e < 53" by (simp only: power_strict_increasing_iff one_less_numeral_iff semiring_norm)
  define b where "b = 52 - e"
  define m where "m = int L * 2 ^ b - 1"
  define P where "P = real_of_int m * 2 ^ 0 / 2 ^ b"
  have eb: "e + b = 52" using e53 by (simp add: b_def)
  have "int L \<le> int (2 ^ (e + 1))" using e(2) by (simp only: of_nat_le_iff)
  then have "int L \<le> 2 ^ (e + 1)" by simp
  then have "int L * 2 ^ b \<le> 2 ^ (e + 1) * 2 ^ b"
    by (intro mult_right_mono) simp_all
  also have "\<dots> = (2::int) ^ (e + 1 + b)" by (simp only: power_add)
  also have "e + 1 + b = 53" using eb by simp
  finally have up: "int L * 2 ^ b \<le> 2 ^ 53" .
  have "(1::int) * 1 \<le> int L * 2 ^ b" using L(1) by (intro mult_mono) simp_all
  then have "1 \<le> int L * 2 ^ b" by simp
  then have m0: "0 \<le> m" by (simp add: m_def)
  have mb: "\<bar>m\<bar> < 2 ^ 53" using up m0 by (simp add: m_def)
  have "b \<le> 1074" by (simp add: b_def)
  then have P64: "is_binary64 P" unfolding is_binary64_def P_def using mb by blast
  define c :: real where "c = 1 / 2 ^ b"
  have Pc: "P = real L - c"
    by (simp add: P_def m_def c_def diff_divide_distrib)
  have "(2::real) ^ e * 2 ^ b = 2 ^ (e + b)" by (simp only: power_add)
  then have "(2::real) ^ e * 2 ^ b = 2 ^ 52" by (simp only: eb)
  then have "(2::real) ^ e / 2 ^ 52 = 2 ^ e / (2 ^ e * 2 ^ b)" by (simp only:)
  also have "\<dots> = 1 / 2 ^ b" by simp
  finally have cb: "c = 2 ^ e / 2 ^ 52" by (simp only: c_def)
  have "(2::real) ^ e < real L" using e(1) by (metis of_nat_less_iff of_nat_numeral of_nat_power)
  then have "c < real L / 2 ^ 52" unfolding cb by (intro divide_strict_right_mono) simp_all
  then have c2: "c < 2 * (real L / 2 ^ 53)" by simp
  have c0: "0 < c" by (simp add: c_def)
  have eps: "0 < real L / 2 ^ 53" using L(1) by simp
  have n: "\<bar>f x - x\<bar> \<le> \<bar>P - x\<bar>" using near P64 unfolding rounds_to_nearest_def by blast
  show ?thesis
  proof (rule ccontr)
    assume "\<not> f x < real L"
    then have "real L \<le> f x" by simp
    then show False using n x c2 c0 eps unfolding Pc by linarith
  qed
qed

lemma nearest_le:
  assumes near: "rounds_to_nearest f" and d: "is_binary64 d" and x: "x \<le> d"
  shows "f x \<le> d"
proof -
  have "\<bar>f x - x\<bar> \<le> \<bar>d - x\<bar>" using near d unfolding rounds_to_nearest_def by blast
  then show ?thesis using x by linarith
qed

lemma split_point_floor: "split_point py L r = max 1 \<lfloor>fl py (real L * r)\<rfloor>"
proof (cases "0 \<le> fl py (real L * r)")
  case True
  then show ?thesis by (simp add: split_point_def py_int_def)
next
  case False
  then have "\<lceil>fl py (real L * r)\<rceil> \<le> 0" "\<lfloor>fl py (real L * r)\<rfloor> \<le> 0"
    by (simp_all add: ceiling_le_iff floor_le_iff)
  then show ?thesis using False by (simp add: split_point_def py_int_def)
qed

text \<open>
  Claim C2, as the code has it. For a word of length \<open>L \<ge> 2\<close> and a float ratio in
  \<open>(0, 1]\<close>, \<open>wrap_word\<close> emits the prefix span over \<open>[0, k)\<close> followed by the rest span
  over \<open>[k, L)\<close>, where \<open>k = max(1, floor(L * ratio))\<close> with the product rounded to a
  nearest binary64 number, and \<open>1 \<le> k \<le> L\<close>. The rest span is non-empty, \<open>k < L\<close>,
  exactly when the ratio is below 1; at ratio 1 it is empty, since \<open>k = L\<close>.
\<close>

theorem wrap_word_split:
  assumes near: "rounds_to_nearest (fl py)" and r64: "is_binary64 r"
    and r: "0 < r" "r \<le> 1" and L: "2 \<le> length word" "length word \<le> 2 ^ 53"
  shows "wrap_word py word r =
           open_prefix @ take (nat (split_point py (length word) r)) word @ close_span @
           open_rest @ drop (nat (split_point py (length word) r)) word @ close_span
         \<and> split_point py (length word) r = max 1 \<lfloor>fl py (real (length word) * r)\<rfloor>
         \<and> 1 \<le> split_point py (length word) r
         \<and> split_point py (length word) r \<le> int (length word)
         \<and> (split_point py (length word) r < int (length word)) = (r < 1)"
proof -
  define L where "L = length word"
  define v where "v = fl py (real L * r)"
  have L2: "2 \<le> L" "L \<le> 2 ^ 53" using L by (simp_all add: L_def)
  have L64: "is_binary64 (real L)" by (rule is_binary64_nat[OF L2(2)])
  have "real L * r \<le> real L * 1" using r by (intro mult_left_mono) simp_all
  then have vL: "v \<le> real L" unfolding v_def using nearest_le[OF near L64] by simp
  have k: "split_point py L r = max 1 \<lfloor>v\<rfloor>" unfolding v_def by (rule split_point_floor)
  have fl_le: "\<lfloor>v\<rfloor> \<le> int L" using vL by (simp add: floor_le_iff)
  have lt: "(\<lfloor>v\<rfloor> < int L) = (v < real L)" by (simp add: floor_less_iff)
  have strict: "(v < real L) = (r < 1)"
  proof (cases "r < 1")
    case True
    have "r \<le> 1 - 1 / 2 ^ 53" by (rule binary64_below_one[OF r64 r(1) True])
    then have "real L * r \<le> real L * (1 - 1 / 2 ^ 53)" by (intro mult_left_mono) simp_all
    then have "real L * r \<le> real L - real L / 2 ^ 53" by (simp add: right_diff_distrib)
    from nearest_below[OF near L2 this] show ?thesis using True by (simp add: v_def)
  next
    case False
    then have "r = 1" using r(2) by simp
    then have "v = real L" unfolding v_def using nearest_exact[OF near L64] by simp
    then show ?thesis using False by simp
  qed
  have "L \<noteq> 1" using L2 by simp
  then have w: "wrap_word py word r =
           open_prefix @ take (nat (split_point py L r)) word @ close_span @
           open_rest @ drop (nat (split_point py L r)) word @ close_span"
    by (simp add: wrap_word_def Let_def L_def)
  show ?thesis
    unfolding L_def[symmetric] v_def[symmetric]
    using w k fl_le lt strict L2 by auto
qed

theorem wrap_word_split_witness:
  "split_point ascii_runtime (length (ustr ''reading'')) (1 / 2) = 3
   \<and> wrap_word ascii_runtime (ustr ''reading'') (1 / 2) =
       open_prefix @ ustr ''rea'' @ close_span @ open_rest @ ustr ''ding'' @ close_span"
proof -
  have k: "split_point ascii_runtime (length (ustr ''reading'')) (1 / 2) = 3"
    by (simp add: split_point_def ascii_runtime_def ustr_def py_int_def)
  have near: "rounds_to_nearest (fl ascii_runtime)"
    by (simp add: rounds_to_nearest_def ascii_runtime_def)
  have "\<bar>1\<bar> < (2::int) ^ 53 \<and> (0::nat) \<le> 971 \<and> (1::nat) \<le> 1074 \<and>
        (1 / 2 :: real) = real_of_int 1 * 2 ^ 0 / 2 ^ 1" by simp
  then have r64: "is_binary64 (1 / 2)" unfolding is_binary64_def by blast
  have len: "2 \<le> length (ustr ''reading'')" "length (ustr ''reading'') \<le> 2 ^ 53"
    by (simp_all add: ustr_def)
  from wrap_word_split[OF near r64 _ _ len] k show ?thesis
    by (simp add: ustr_def)
qed

text \<open>At ratio 1 the word \<open>ab\<close> is split at \<open>k = 2 = L\<close>: the rest span is empty.\<close>

theorem wrap_word_ratio_one_counterexample:
  "\<not> split_point ascii_runtime (length (ustr ''ab'')) 1 < int (length (ustr ''ab''))
   \<and> wrap_word ascii_runtime (ustr ''ab'') 1 =
       ustr ''<span class=\"bionic-prefix\">ab</span><span class=\"bionic-rest\"></span>''"
  by (simp add: split_point_def wrap_word_def ascii_runtime_def ustr_def py_int_def
      open_prefix_def open_rest_def close_span_def)

section \<open>Properties of the chunking\<close>





text \<open>
  The chunks are the consecutive slices of 100 blocks of the content, in order; only the last
  slice can be shorter.
\<close>

lemma chunk_loop_short:
  "length cur + length es < CHUNK_SIZE \<Longrightarrow>
   chunk_loop libs h t es (chunks, cur) = (chunks, cur @ es)"
  by (induction es arbitrary: cur) (simp_all add: Let_def)

lemma chunk_loop_full:
  "length cur + length es = CHUNK_SIZE \<Longrightarrow> es \<noteq> [] \<Longrightarrow>
   chunk_loop libs h t es (chunks, cur) = (chunks @ [chunk_html libs h t (cur @ es)], [])"
proof (induction es arbitrary: cur)
  case Nil
  then show ?case by simp
next
  case (Cons e es)
  show ?case
  proof (cases "es = []")
    case True
    then show ?thesis using Cons.prems by (simp add: Let_def)
  next
    case False
    then have "\<not> CHUNK_SIZE \<le> Suc (length cur)" using Cons.prems(1) by (cases es) auto
    moreover have "length (cur @ [e]) + length es = CHUNK_SIZE" using Cons.prems(1) by simp
    ultimately show ?thesis using Cons.IH[OF _ False, of "cur @ [e]"] by (simp add: Let_def)
  qed
qed

lemma chunk_loop_append:
  "chunk_loop libs h t (xs @ ys) st = chunk_loop libs h t ys (chunk_loop libs h t xs st)"
proof (induction xs arbitrary: st)
  case Nil
  then show ?case by simp
next
  case (Cons x xs)
  obtain chunks cur where st: "st = (chunks, cur)" by (cases st)
  show ?case unfolding st by (simp add: Let_def Cons.IH)
qed

lemma chunk_loop_slices:
  "chunk_loop libs h t es (chunks, []) = (chunks', cur') \<Longrightarrow>
   chunks' @ (if cur' \<noteq> [] then [chunk_html libs h t cur'] else []) =
     chunks @ map (chunk_html libs h t) (slices CHUNK_SIZE es)"
proof (induction "CHUNK_SIZE" es arbitrary: chunks rule: slices.induct)
  case (1 es)
  show ?case
  proof (cases "es = []")
    case True
    then show ?thesis using "1.prems" by (simp add: slices.simps)
  next
    case ne: False
    have pos: "CHUNK_SIZE \<noteq> 0" by (simp add: CHUNK_SIZE_def)
    show ?thesis
    proof (cases "length es < CHUNK_SIZE")
      case True
      then have "chunk_loop libs h t es (chunks, []) = (chunks, es)"
        using chunk_loop_short[of "[]" es libs h t chunks] by simp
      moreover have "slices CHUNK_SIZE es = [es]"
        using True ne pos by (simp add: slices.simps[of CHUNK_SIZE es] slices.simps[of CHUNK_SIZE "[]"])
      ultimately show ?thesis using "1.prems" ne by simp
    next
      case False
      define a where "a = take CHUNK_SIZE es"
      define b where "b = drop CHUNK_SIZE es"
      have es: "es = a @ b" by (simp add: a_def b_def)
      have la: "length a = CHUNK_SIZE" using False by (simp add: a_def)
      have an: "a \<noteq> []" using la pos by auto
      have "chunk_loop libs h t a (chunks, []) = (chunks @ [chunk_html libs h t a], [])"
        using chunk_loop_full[of "[]" a libs h t chunks] la an by simp
      then have "chunk_loop libs h t b (chunks @ [chunk_html libs h t a], []) = (chunks', cur')"
        using "1.prems" by (simp add: es chunk_loop_append)
      from "1.hyps"[OF _ this[unfolded b_def]] pos ne
      have "chunks' @ (if cur' \<noteq> [] then [chunk_html libs h t cur'] else []) =
          (chunks @ [chunk_html libs h t a]) @ map (chunk_html libs h t) (slices CHUNK_SIZE b)"
        by (simp add: b_def)
      moreover have "slices CHUNK_SIZE es = a # slices CHUNK_SIZE b"
        using ne pos by (simp add: slices.simps[of CHUNK_SIZE es] a_def b_def)
      ultimately show ?thesis by simp
    qed
  qed
qed

lemma make_chunks_slices:
  "make_chunks libs h t content =
     (if content = [] then [h @ t] else map (chunk_html libs h t) (slices CHUNK_SIZE content))"
proof -
  obtain chunks cur where run: "chunk_loop libs h t content ([], []) = (chunks, cur)"
    by (cases "chunk_loop libs h t content ([], [])")
  from chunk_loop_slices[OF run]
  have eq: "chunks @ (if cur \<noteq> [] then [chunk_html libs h t cur] else []) =
     map (chunk_html libs h t) (slices CHUNK_SIZE content)" by simp
  show ?thesis
  proof (cases "content = []")
    case True
    then show ?thesis using run by (simp add: make_chunks_def)
  next
    case False
    have "CHUNK_SIZE \<noteq> 0" by (simp add: CHUNK_SIZE_def)
    then have "slices CHUNK_SIZE content \<noteq> []"
      using False by (subst slices.simps) simp
    then have "chunks @ (if cur \<noteq> [] then [chunk_html libs h t cur] else []) \<noteq> []"
      using eq by simp
    then show ?thesis using run eq False by (auto simp: make_chunks_def)
  qed
qed

lemma slices_concat: "0 < n \<Longrightarrow> concat (slices n xs) = xs"
  by (induction n xs rule: slices.induct) (simp add: slices.simps)

lemma slices_length: "g \<in> set (slices n xs) \<Longrightarrow> 0 < length g \<and> length g \<le> n"
proof (induction n xs rule: slices.induct)
  case (1 n xs)
  show ?case
  proof (cases "n = 0 \<or> xs = []")
    case True
    then show ?thesis using "1.prems" by (simp add: slices.simps)
  next
    case False
    then have "g = take n xs \<or> g \<in> set (slices n (drop n xs))"
      using "1.prems" by (simp add: slices.simps[of n xs])
    then show ?thesis using False "1.IH" by auto
  qed
qed



section \<open>Properties of the renderer\<close>

subsection \<open>The worker pool\<close>

lemma render_chunk_ok:
  assumes "tmp_names w = t # ts" "write_pdf libs c = Inr pages"
  shows "render_chunk libs w c =
     (Some t, w\<lparr>files := (files w)(t \<mapsto> Pdf_file pages), tmp_names := ts\<rparr>)"
  using assms by (simp add: render_chunk_def)

lemma run_workers_inv:
  assumes "\<forall>c\<in>set cs. renders libs c"
  shows "workers_inv libs cs res w \<Longrightarrow> length order \<le> length (tmp_names w) \<Longrightarrow>
     run_workers libs cs order (res, w) = (res', w') \<Longrightarrow>
     workers_inv libs cs res' w' \<and> dom res' = dom res \<union> {i \<in> set order. i < length cs} \<and>
     (\<forall>p. p \<notin> set (tmp_names w) \<longrightarrow> files w' p = files w p) \<and>
     set (tmp_names w') \<subseteq> set (tmp_names w)"
proof (induction order arbitrary: res w)
  case Nil
  then show ?case by simp
next
  case (Cons i order)
  show ?case
  proof (cases "i < length cs")
    case False
    with Cons.prems have run: "run_workers libs cs order (res, w) = (res', w')" by simp
    from Cons.IH[OF Cons.prems(1) _ run] Cons.prems(2) False show ?thesis by auto
  next
    case True
    obtain t ts where names: "tmp_names w = t # ts"
      using Cons.prems(2) by (cases "tmp_names w") auto
    have "renders libs (cs ! i)" using assms True by simp
    then obtain pages where wp: "write_pdf libs (cs ! i) = Inr pages"
      by (auto simp: renders_def split: sum.splits)
    have pg: "pages_of libs (cs ! i) = pages" using wp by (simp add: pages_of_def)
    define w1 where "w1 = w\<lparr>files := (files w)(t \<mapsto> Pdf_file pages), tmp_names := ts\<rparr>"
    define res1 where "res1 = res(i \<mapsto> Some t)"
    have rc: "render_chunk libs w (cs ! i) = (Some t, w1)"
      using render_chunk_ok[OF names wp] by (simp add: w1_def)
    have run: "run_workers libs cs order (res1, w1) = (res', w')"
      using Cons.prems(3) True rc by (simp add: res1_def)
    have d: "distinct (t # ts)" "t \<notin> set ts"
      using Cons.prems(1) names by (auto simp: workers_inv_def)
    have old: "\<And>j p. res j = Some p \<Longrightarrow>
         \<exists>t'. p = Some t' \<and> t' \<notin> set (t # ts) \<and>
              files w t' = Some (Pdf_file (pages_of libs (cs ! j)))"
      using Cons.prems(1) names by (auto simp: workers_inv_def)
    have inj: "\<And>a b t'. res a = Some (Some t') \<Longrightarrow> res b = Some (Some t') \<Longrightarrow> a = b"
      using Cons.prems(1) by (auto simp: workers_inv_def)
    have inv1: "workers_inv libs cs res1 w1"
      unfolding workers_inv_def
    proof (intro conjI allI impI)
      show "distinct (tmp_names w1)" using d by (simp add: w1_def)
    next
      fix j p assume a: "res1 j = Some p"
      show "\<exists>t'. p = Some t' \<and> t' \<notin> set (tmp_names w1) \<and>
              files w1 t' = Some (Pdf_file (pages_of libs (cs ! j)))"
      proof (cases "j = i")
        case True
        then have "p = Some t" using a by (simp add: res1_def)
        then show ?thesis using d pg True by (intro exI[of _ t]) (simp add: w1_def)
      next
        case False
        then have "res j = Some p" using a by (simp add: res1_def)
        from old[OF this] show ?thesis by (auto simp: w1_def)
      qed
    next
      fix a b t' assume h: "res1 a = Some (Some t') \<and> res1 b = Some (Some t')"
      show "a = b"
      proof (cases "t' = t")
        case True
        have "a = i"
        proof (rule ccontr)
          assume "a \<noteq> i"
          then have "res a = Some (Some t)" using h True by (simp add: res1_def)
          from old[OF this] show False by simp
        qed
        moreover have "b = i"
        proof (rule ccontr)
          assume "b \<noteq> i"
          then have "res b = Some (Some t)" using h True by (simp add: res1_def)
          from old[OF this] show False by simp
        qed
        ultimately show ?thesis by simp
      next
        case False
        then have "res a = Some (Some t')" "res b = Some (Some t')"
          using h by (auto simp: res1_def split: if_splits)
        then show ?thesis by (rule inj)
      qed
    qed
    have len: "length order \<le> length (tmp_names w1)"
      using Cons.prems(2) names by (simp add: w1_def)
    from Cons.IH[OF inv1 len run]
    have ih: "workers_inv libs cs res' w'"
      "dom res' = dom res1 \<union> {i \<in> set order. i < length cs}"
      "\<forall>p. p \<notin> set (tmp_names w1) \<longrightarrow> files w' p = files w1 p"
      "set (tmp_names w') \<subseteq> set (tmp_names w1)" by simp_all
    have "dom res' = dom res \<union> {j \<in> set (i # order). j < length cs}"
      using ih(2) True by (auto simp: res1_def)
    moreover have "\<forall>p. p \<notin> set (tmp_names w) \<longrightarrow> files w' p = files w p"
      using ih(3) names by (auto simp: w1_def)
    moreover have "set (tmp_names w') \<subseteq> set (tmp_names w)"
      using ih(4) names by (auto simp: w1_def)
    ultimately show ?thesis using ih(1) by simp
  qed
qed

subsection \<open>Merging\<close>

lemma merge_loop_ok:
  "distinct ts \<Longrightarrow> (\<forall>t\<in>set ts. files w t = Some (Pdf_file (g t))) \<Longrightarrow>
   \<exists>w2. merge_loop ts (doc, w) = Inr (doc @ concat (map g ts), w2) \<and>
        (\<forall>p. files w2 p = (if p \<in> set ts then None else files w p)) \<and>
        tmp_names w2 = tmp_names w"
proof (induction ts arbitrary: doc w)
  case Nil
  then show ?case by simp
next
  case (Cons t ts)
  define w1 where "w1 = w\<lparr>files := (files w)(t := None)\<rparr>"
  have a: "\<forall>u\<in>set ts. files w1 u = Some (Pdf_file (g u))"
    using Cons.prems by (auto simp: w1_def)
  have d: "distinct ts" using Cons.prems by simp
  from Cons.IH[OF d a, of "doc @ g t"] obtain w2 where
    w2: "merge_loop ts (doc @ g t, w1) = Inr ((doc @ g t) @ concat (map g ts), w2)"
      "\<forall>p. files w2 p = (if p \<in> set ts then None else files w1 p)"
      "tmp_names w2 = tmp_names w1" by blast
  have "merge_loop (t # ts) (doc, w) = Inr (doc @ concat (map g (t # ts)), w2)"
    using Cons.prems(2) w2(1) by (simp add: w1_def)
  moreover have "\<forall>p. files w2 p = (if p \<in> set (t # ts) then None else files w p)"
    using w2(2) by (auto simp: w1_def)
  moreover have "tmp_names w2 = tmp_names w" using w2(3) by (simp add: w1_def)
  ultimately show ?case by blast
qed

lemma merge_loop_frame:
  "merge_loop ts (doc, w) = r \<Longrightarrow>
   (case r of Inl (e, w2) \<Rightarrow> \<forall>p. p \<notin> set ts \<longrightarrow> files w2 p = files w p
            | Inr (doc', w2) \<Rightarrow> \<forall>p. p \<notin> set ts \<longrightarrow> files w2 p = files w p)"
proof (induction ts arbitrary: doc w)
  case Nil
  then show ?case by auto
next
  case (Cons t ts)
  show ?case
  proof (cases "\<exists>part. files w t = Some (Pdf_file part)")
    case True
    then obtain part where part: "files w t = Some (Pdf_file part)" by blast
    define w1 where "w1 = w\<lparr>files := (files w)(t := None)\<rparr>"
    have "merge_loop ts (doc @ part, w1) = r" using Cons.prems part by (simp add: w1_def)
    from Cons.IH[OF this] show ?thesis
      by (auto simp: w1_def split: sum.splits prod.splits)
  next
    case False
    then have "r = Inl (''cannot open '' @ t, w)"
      using Cons.prems by (auto split: option.splits file_content.splits)
    then show ?thesis by simp
  qed
qed

lemma render_chunk_frame:
  "render_chunk libs w c = (p, w') \<Longrightarrow>
   (\<forall>q. q \<notin> set (tmp_names w) \<longrightarrow> files w' q = files w q) \<and>
   set (tmp_names w') \<subseteq> set (tmp_names w) \<and>
   (\<forall>t. p = Some t \<longrightarrow> t \<in> set (tmp_names w))"
  by (auto simp: render_chunk_def Let_def split: list.splits sum.splits)

lemma run_workers_frame:
  "run_workers libs cs order (res, w) = (res', w') \<Longrightarrow>
   (\<forall>i t. res i = Some (Some t) \<longrightarrow> t \<in> T) \<Longrightarrow> set (tmp_names w) \<subseteq> T \<Longrightarrow>
   (\<forall>q. q \<notin> T \<longrightarrow> files w' q = files w q) \<and>
   (\<forall>i t. res' i = Some (Some t) \<longrightarrow> t \<in> T)"
proof (induction order arbitrary: res w)
  case Nil
  then show ?case by simp
next
  case (Cons i order)
  show ?case
  proof (cases "i < length cs")
    case False
    with Cons.prems have "run_workers libs cs order (res, w) = (res', w')" by simp
    from Cons.IH[OF this Cons.prems(2,3)] show ?thesis .
  next
    case True
    obtain p w1 where rc: "render_chunk libs w (cs ! i) = (p, w1)"
      by (cases "render_chunk libs w (cs ! i)")
    note fr = render_chunk_frame[OF rc]
    have run: "run_workers libs cs order (res(i \<mapsto> p), w1) = (res', w')"
      using Cons.prems(1) True rc by simp
    have a: "\<forall>j t. (res(i \<mapsto> p)) j = Some (Some t) \<longrightarrow> t \<in> T"
      using Cons.prems(2,3) fr by auto
    have b: "set (tmp_names w1) \<subseteq> T" using Cons.prems(3) fr by auto
    from Cons.IH[OF run a b] have
      "\<forall>q. q \<notin> T \<longrightarrow> files w' q = files w1 q" "\<forall>i t. res' i = Some (Some t) \<longrightarrow> t \<in> T"
      by simp_all
    moreover have "\<forall>q. q \<notin> T \<longrightarrow> files w1 q = files w q"
      using fr Cons.prems(3) by auto
    ultimately show ?thesis by simp
  qed
qed

lemma pool_map_frame:
  assumes "pool_map libs order w cs = (temp_pdfs, w1)"
  shows "(\<forall>q. q \<notin> set (tmp_names w) \<longrightarrow> files w1 q = files w q) \<and>
         (\<forall>t. Some t \<in> set temp_pdfs \<longrightarrow> t \<in> set (tmp_names w))"
proof -
  obtain res' where run: "run_workers libs cs order (Map.empty, w) = (res', w1)"
    and tp: "temp_pdfs = map (\<lambda>i. case res' i of None \<Rightarrow> None | Some p \<Rightarrow> p) [0..<length cs]"
    using assms by (auto simp: pool_map_def split: prod.splits)
  from run_workers_frame[OF run, of "set (tmp_names w)"]
  have fr: "\<forall>q. q \<notin> set (tmp_names w) \<longrightarrow> files w1 q = files w q"
    "\<forall>i t. res' i = Some (Some t) \<longrightarrow> t \<in> set (tmp_names w)" by simp_all
  have "\<forall>t. Some t \<in> set temp_pdfs \<longrightarrow> t \<in> set (tmp_names w)"
    using fr(2) by (auto simp: tp split: option.splits)
  then show ?thesis using fr(1) by simp
qed

lemma pool_map_ok:
  assumes rend: "\<forall>c\<in>set cs. renders libs c"
    and ord: "set order = {..<length cs}" "length order \<le> length (tmp_names w)"
    and dist: "distinct (tmp_names w)"
    and pm: "pool_map libs order w cs = (temp_pdfs, w1)"
  shows "\<exists>ts. temp_pdfs = map Some ts \<and> distinct ts \<and> length ts = length cs \<and>
              (\<forall>i<length cs. files w1 (ts ! i) = Some (Pdf_file (pages_of libs (cs ! i))))"
proof -
  obtain res' where run: "run_workers libs cs order (Map.empty, w) = (res', w1)"
    and tp: "temp_pdfs = map (\<lambda>i. case res' i of None \<Rightarrow> None | Some p \<Rightarrow> p) [0..<length cs]"
    using pm by (auto simp: pool_map_def split: prod.splits)
  have inv0: "workers_inv libs cs Map.empty w" using dist by (simp add: workers_inv_def)
  from run_workers_inv[OF rend inv0 ord(2) run]
  have inv: "workers_inv libs cs res' w1" and dm: "dom res' = {i \<in> set order. i < length cs}"
    by simp_all
  have dm': "dom res' = {..<length cs}" using dm ord(1) by auto
  define tau where "tau i = (case res' i of Some (Some t) \<Rightarrow> t | _ \<Rightarrow> [])" for i
  have ti: "res' i = Some (Some (tau i)) \<and>
            files w1 (tau i) = Some (Pdf_file (pages_of libs (cs ! i)))" if "i < length cs" for i
  proof -
    from that dm' obtain p where p: "res' i = Some p" by blast
    with inv obtain t where "p = Some t" "files w1 t = Some (Pdf_file (pages_of libs (cs ! i)))"
      unfolding workers_inv_def by blast
    then show ?thesis using p by (simp add: tau_def)
  qed
  define ts where "ts = map tau [0..<length cs]"
  have "temp_pdfs = map Some ts"
    unfolding tp ts_def using ti by (auto simp: map_eq_conv)
  moreover have "distinct ts"
  proof -
    have "inj_on tau {..<length cs}"
    proof (rule inj_onI)
      fix a b assume ab: "a \<in> {..<length cs}" "b \<in> {..<length cs}" "tau a = tau b"
      then have "res' a = Some (Some (tau a))" "res' b = Some (Some (tau a))"
        using ti by auto
      with inv show "a = b" unfolding workers_inv_def by blast
    qed
    then show ?thesis unfolding ts_def
      by (simp add: distinct_map atLeast0LessThan)
  qed
  moreover have "length ts = length cs" by (simp add: ts_def)
  moreover have "\<forall>i<length cs. files w1 (ts ! i) = Some (Pdf_file (pages_of libs (cs ! i)))"
    using ti by (simp add: ts_def)
  ultimately show ?thesis by blast
qed

lemma somes_map_Some:
  "concat (map (\<lambda>p. case p of None \<Rightarrow> [] | Some t \<Rightarrow> [t]) (map Some ts)) = ts"
  by (induction ts) auto

lemma render_pdf_ok:
  assumes rend: "\<forall>c\<in>set cs. renders libs c"
    and ord: "set order = {..<length cs}" "length order \<le> length (tmp_names w)"
    and dist: "distinct (tmp_names w)"
    and save: "fitz_save libs (concat (map (pages_of libs) cs)) out = Saved"
  shows "\<exists>w'. render_pdf libs order w cs out = (Inr True, w') \<and>
              files w' out = Some (Pdf_file (concat (map (pages_of libs) cs)))"
proof -
  obtain temp_pdfs w1 where pm: "pool_map libs order w cs = (temp_pdfs, w1)"
    by (cases "pool_map libs order w cs")
  from pool_map_ok[OF rend ord dist pm] obtain ts where
    ts: "temp_pdfs = map Some ts" "distinct ts" "length ts = length cs"
      "\<forall>i<length cs. files w1 (ts ! i) = Some (Pdf_file (pages_of libs (cs ! i)))" by blast
  define g where "g t = (case files w1 t of Some (Pdf_file pg) \<Rightarrow> pg | _ \<Rightarrow> [])" for t
  have gt: "\<forall>t\<in>set ts. files w1 t = Some (Pdf_file (g t))"
  proof
    fix t assume "t \<in> set ts"
    then obtain i where "i < length ts" "ts ! i = t" by (auto simp: in_set_conv_nth)
    then show "files w1 t = Some (Pdf_file (g t))" using ts(3,4) by (auto simp: g_def)
  qed
  have "map g ts = map (pages_of libs) cs"
    using ts(3,4) by (auto simp: list_eq_iff_nth_eq g_def)
  then have cc: "concat (map g ts) = concat (map (pages_of libs) cs)" by simp
  from merge_loop_ok[OF ts(2) gt, of "[]"] obtain w2 where
    w2: "merge_loop ts ([], w1) = Inr (concat (map g ts), w2)" by auto
  have nn: "None \<notin> set temp_pdfs" using ts(1) by auto
  have sm: "concat (map (\<lambda>p. case p of None \<Rightarrow> [] | Some t \<Rightarrow> [t]) temp_pdfs) = ts"
    unfolding ts(1) by (rule somes_map_Some)
  have "render_pdf libs order w cs out =
          (Inr True, w2\<lparr>files := (files w2)(out \<mapsto> Pdf_file (concat (map (pages_of libs) cs)))\<rparr>)"
    unfolding render_pdf_def pm using nn w2 save cc by (simp add: sm)
  then show ?thesis by simp
qed

text \<open>
  Claim C5. Whatever the order in which the workers take up the chunks (any permutation of
  the chunk indices), when every chunk renders and the save succeeds, the file at the output
  path holds the pages of the chunks in the order of the chunks.
\<close>

theorem merge_order:
  assumes "distinct order" and "set order = {..<length html_chunks}"
    and "distinct (tmp_names w)" and "length html_chunks \<le> length (tmp_names w)"
    and "\<forall>c\<in>set html_chunks. renders libs c"
    and "fitz_save libs (concat (map (pages_of libs) html_chunks)) output_path = Saved"
  shows "\<exists>w'. render_pdf libs order w html_chunks output_path = (Inr True, w') \<and>
              files w' output_path = Some (Pdf_file (concat (map (pages_of libs) html_chunks)))"
proof -
  have "length order = length html_chunks"
    using assms(1,2) by (metis card_lessThan distinct_card)
  then have "length order \<le> length (tmp_names w)" using assms(4) by simp
  from render_pdf_ok[OF assms(5) assms(2) this assms(3) assms(6)] show ?thesis .
qed

theorem merge_order_witness:
  "\<exists>w'. render_pdf sample_libs [1, 0] sample_world [ustr ''chunk 1'', ustr ''chunk 3''] ''/out.pdf''
           = (Inr True, w') \<and>
         files w' ''/out.pdf'' = Some (Pdf_file [ustr ''chunk 1'', ustr ''chunk 3''])"
proof -
  have s: "set [1, 0::nat] = {..<length [ustr ''chunk 1'', ustr ''chunk 3'']}" by auto
  show ?thesis
    using merge_order[of "[1, 0]" "[ustr ''chunk 1'', ustr ''chunk 3'']" sample_world sample_libs
        "''/out.pdf''", OF _ s]
    by (simp add: sample_world_def sample_libs_def renders_def pages_of_def ustr_def)
qed

text \<open>The exit status: 0 only when the document is read and \<open>render_pdf\<close> returns.\<close>

lemma main_exit_status:
  "fst (main py libs order w a) =
     (if files w (arg_input a) = None then 1
      else case fst (pdf_to_html py libs (arg_input a) (arg_font a) (arg_bold_ratio a)) of
             Inl e \<Rightarrow> 1
           | Inr html_chunks \<Rightarrow>
               (case fst (render_pdf libs order w html_chunks
                            (case arg_output a of
                               None \<Rightarrow> splitext_base (arg_input a) @ ''_bionic.pdf''
                             | Some p \<Rightarrow> if p = [] then splitext_base (arg_input a) @ ''_bionic.pdf''
                                        else p)) of
                  Inl e \<Rightarrow> 1
                | Inr ok \<Rightarrow> 0))"
  by (auto simp: main_def Let_def split: sum.splits prod.splits)

text \<open>
  Claim C3, evaluated on three chunks of which the second fails to render: \<open>render_pdf\<close>
  raises and writes nothing to the output path, as the claim says, but the temporary files of
  all three chunks are still there when it returns.
\<close>

theorem render_failure_leaves_temp_files:
  "fst (render_pdf failing_render_libs [0, 1, 2] sample_world
          [ustr ''chunk 1'', ustr ''chunk 2'', ustr ''chunk 3''] ''/out.pdf'')
     = Inl ''One or more chunks failed to render.''
   \<and> files (snd (render_pdf failing_render_libs [0, 1, 2] sample_world
          [ustr ''chunk 1'', ustr ''chunk 2'', ustr ''chunk 3''] ''/out.pdf'')) ''/out.pdf'' = None
   \<and> files (snd (render_pdf failing_render_libs [0, 1, 2] sample_world
          [ustr ''chunk 1'', ustr ''chunk 2'', ustr ''chunk 3''] ''/out.pdf'')) ''/tmp/a.pdf''
       = Some (Pdf_file [ustr ''chunk 1''])
   \<and> files (snd (render_pdf failing_render_libs [0, 1, 2] sample_world
          [ustr ''chunk 1'', ustr ''chunk 2'', ustr ''chunk 3''] ''/out.pdf'')) ''/tmp/b.pdf''
       = Some Empty_file
   \<and> files (snd (render_pdf failing_render_libs [0, 1, 2] sample_world
          [ustr ''chunk 1'', ustr ''chunk 2'', ustr ''chunk 3''] ''/out.pdf'')) ''/tmp/c.pdf''
       = Some (Pdf_file [ustr ''chunk 3''])"
  by (simp add: render_pdf_def pool_map_def render_chunk_def sample_world_def sample_libs_def failing_render_libs_def
      ustr_def upt_rec)

text \<open>
  The merge loop returns a document exactly when it can open every one of its paths, and the
  document is then the pages of the files in the order of the paths.
\<close>

lemma opens_pages: "opens w t \<Longrightarrow> files w t = Some (Pdf_file (pages_at w t))"
  by (auto simp: opens_def pages_at_def split: option.splits file_content.splits)

lemma merge_loop_mergeable:
  assumes "distinct ts" and "list_all (opens w) ts"
  shows "\<exists>w2. merge_loop ts (doc, w) = Inr (doc @ concat (map (pages_at w) ts), w2) \<and>
              (\<forall>p. files w2 p = (if p \<in> set ts then None else files w p))"
proof -
  have "\<forall>t\<in>set ts. files w t = Some (Pdf_file (pages_at w t))"
    using assms(2) by (auto simp: list_all_iff opens_pages)
  from merge_loop_ok[OF assms(1) this, of doc] show ?thesis by blast
qed

lemma merge_loop_unmergeable:
  "\<not> (distinct ts \<and> list_all (opens w) ts) \<Longrightarrow>
   \<exists>e w2. merge_loop ts (doc, w) = Inl (e, w2)"
proof (induction ts arbitrary: doc w)
  case Nil
  then show ?case by simp
next
  case (Cons t ts)
  show ?case
  proof (cases "opens w t")
    case False
    then show ?thesis
      by (auto simp: opens_def split: option.splits file_content.splits)
  next
    case True
    then have f: "files w t = Some (Pdf_file (pages_at w t))" by (rule opens_pages)
    define w1 where "w1 = w\<lparr>files := (files w)(t := None)\<rparr>"
    have "\<not> (distinct ts \<and> list_all (opens w1) ts)"
    proof
      assume a: "distinct ts \<and> list_all (opens w1) ts"
      then have "t \<notin> set ts" by (auto simp: list_all_iff opens_def w1_def)
      moreover have "list_all (opens w) ts"
        using a by (auto simp: list_all_iff opens_def w1_def split: if_splits)
      ultimately show False using Cons.prems True a by simp
    qed
    from Cons.IH[OF this, of "doc @ pages_at w t"] show ?thesis
      using f by (simp add: w1_def)
  qed
qed

text \<open>
  Claim C4, as the code has it. The output path is written by the one call
  \<open>doc.save(output_path)\<close>, on the path itself. When a chunk fails to render,
  \<open>render_pdf\<close> raises and the output path is as it was before. When every chunk has
  rendered and a chunk file cannot be opened for merging, it raises and the output path is as
  it was before. When every chunk file can be opened, the document that is saved is the
  concatenation of the pages of the chunk files, in the order of the chunks: a save that
  succeeds returns \<open>True\<close> and leaves that document at the output path; a save that fails
  raises and leaves the output path as it was before, or holding a partial file.
\<close>

theorem render_pdf_destination:
  assumes "output_path \<notin> set (tmp_names w)"
    and "pool_map libs order w html_chunks = (temp_pdfs, w1)"
    and "render_pdf libs order w html_chunks output_path = (res, w')"
  shows "(None \<in> set temp_pdfs \<longrightarrow>
            res = Inl ''One or more chunks failed to render.'' \<and>
            files w' output_path = files w output_path)
       \<and> (None \<notin> set temp_pdfs \<and> \<not> mergeable w1 (temp_paths temp_pdfs) \<longrightarrow>
            (\<exists>e. res = Inl e) \<and> files w' output_path = files w output_path)
       \<and> (None \<notin> set temp_pdfs \<and> mergeable w1 (temp_paths temp_pdfs) \<longrightarrow>
            (case fitz_save libs (merged_document w1 (temp_paths temp_pdfs)) output_path of
               Saved \<Rightarrow>
                 res = Inr True \<and>
                 files w' output_path = Some (Pdf_file (merged_document w1 (temp_paths temp_pdfs)))
             | Save_failed \<Rightarrow>
                 res = Inl ''save failed'' \<and> files w' output_path = files w output_path
             | Save_failed_partial \<Rightarrow>
                 res = Inl ''save failed'' \<and> files w' output_path = Some Partial_file))"
proof -
  note pm = assms(2)
  note fr = pool_map_frame[OF pm]
  have f1: "files w1 output_path = files w output_path" using fr assms(1) by simp
  define ts where "ts = temp_paths temp_pdfs"
  have ts: "concat (map (\<lambda>p. case p of None \<Rightarrow> [] | Some t \<Rightarrow> [t]) temp_pdfs) = ts"
    by (simp add: ts_def temp_paths_def)
  have tsin: "set ts \<subseteq> set (tmp_names w)"
    using fr by (auto simp: ts_def temp_paths_def split: option.splits)
  then have notin: "output_path \<notin> set ts" using assms(1) by auto
  have a: "None \<in> set temp_pdfs \<Longrightarrow>
            res = Inl ''One or more chunks failed to render.'' \<and>
            files w' output_path = files w output_path"
    using assms(3) pm f1 by (auto simp: render_pdf_def)
  have b: "(\<exists>e. res = Inl e) \<and> files w' output_path = files w output_path"
    if n: "None \<notin> set temp_pdfs" and m: "\<not> mergeable w1 ts"
  proof -
    from m have "\<not> (distinct ts \<and> list_all (opens w1) ts)" by (simp add: mergeable_def)
    from merge_loop_unmergeable[OF this, of "[]"]
    obtain e w2 where ml: "merge_loop ts ([], w1) = Inl (e, w2)" by blast
    from merge_loop_frame[of ts "[]" w1 "Inl (e, w2)"] ml notin
    have "files w2 output_path = files w1 output_path" by simp
    then show ?thesis
      using assms(3) pm n ml f1 by (auto simp: render_pdf_def ts)
  qed
  have c: "(case fitz_save libs (merged_document w1 ts) output_path of
               Saved \<Rightarrow>
                 res = Inr True \<and>
                 files w' output_path = Some (Pdf_file (merged_document w1 ts))
             | Save_failed \<Rightarrow>
                 res = Inl ''save failed'' \<and> files w' output_path = files w output_path
             | Save_failed_partial \<Rightarrow>
                 res = Inl ''save failed'' \<and> files w' output_path = Some Partial_file)"
    if n: "None \<notin> set temp_pdfs" and m: "mergeable w1 ts"
  proof -
    from m have d: "distinct ts" and o: "list_all (opens w1) ts" by (simp_all add: mergeable_def)
    from merge_loop_mergeable[OF d o, of "[]"]
    obtain w2 where ml: "merge_loop ts ([], w1) = Inr (merged_document w1 ts, w2)"
      and f2: "\<forall>p. files w2 p = (if p \<in> set ts then None else files w1 p)"
      by (auto simp: merged_document_def)
    from f2 notin have f2': "files w2 output_path = files w1 output_path" by simp
    show ?thesis
    proof (cases "fitz_save libs (merged_document w1 ts) output_path")
      case Saved
      then show ?thesis
        using assms(3) pm n ml by (auto simp: render_pdf_def ts)
    next
      case Save_failed
      then show ?thesis
        using assms(3) pm n ml f1 f2' by (auto simp: render_pdf_def ts)
    next
      case Save_failed_partial
      then show ?thesis
        using assms(3) pm n ml by (auto simp: render_pdf_def ts)
    qed
  qed
  show ?thesis using a b c unfolding ts_def by blast
qed

theorem render_pdf_destination_witness:
  "(fst (render_pdf failing_render_libs [0, 1] sample_world
          [ustr ''chunk 1'', ustr ''chunk 2''] ''/out.pdf'')
      = Inl ''One or more chunks failed to render.''
    \<and> files (snd (render_pdf failing_render_libs [0, 1] sample_world
          [ustr ''chunk 1'', ustr ''chunk 2''] ''/out.pdf'')) ''/out.pdf''
      = files sample_world ''/out.pdf'')
   \<and> (isl (fst (render_pdf sample_libs [0, 1] reused_name_world
          [ustr ''chunk 1'', ustr ''chunk 2''] ''/out.pdf''))
    \<and> files (snd (render_pdf sample_libs [0, 1] reused_name_world
          [ustr ''chunk 1'', ustr ''chunk 2''] ''/out.pdf'')) ''/out.pdf''
      = files reused_name_world ''/out.pdf'')
   \<and> (fst (render_pdf sample_libs [1, 0] sample_world
          [ustr ''chunk 1'', ustr ''chunk 2''] ''/out.pdf'') = Inr True
    \<and> files (snd (render_pdf sample_libs [1, 0] sample_world
          [ustr ''chunk 1'', ustr ''chunk 2''] ''/out.pdf'')) ''/out.pdf''
      = Some (Pdf_file [ustr ''chunk 1'', ustr ''chunk 2'']))"
proof -
  let ?cs = "[ustr ''chunk 1'', ustr ''chunk 2'']"
  have o: "''/out.pdf'' \<notin> set (tmp_names sample_world)" by (simp add: sample_world_def)
  have o': "''/out.pdf'' \<notin> set (tmp_names reused_name_world)" by (simp add: reused_name_world_def)
  have n1: "None \<in> set (fst (pool_map failing_render_libs [0, 1] sample_world ?cs))"
    by (simp add: pool_map_def render_chunk_def sample_world_def sample_libs_def
        failing_render_libs_def ustr_def upt_rec)
  have n2: "None \<notin> set (fst (pool_map sample_libs [0, 1] reused_name_world ?cs))
      \<and> \<not> mergeable (snd (pool_map sample_libs [0, 1] reused_name_world ?cs))
            (temp_paths (fst (pool_map sample_libs [0, 1] reused_name_world ?cs)))"
    by (simp add: pool_map_def render_chunk_def reused_name_world_def sample_libs_def
        mergeable_def temp_paths_def ustr_def upt_rec)
  have n3: "None \<notin> set (fst (pool_map sample_libs [1, 0] sample_world ?cs))
      \<and> mergeable (snd (pool_map sample_libs [1, 0] sample_world ?cs))
            (temp_paths (fst (pool_map sample_libs [1, 0] sample_world ?cs)))"
    by (simp add: pool_map_def render_chunk_def sample_world_def sample_libs_def
        mergeable_def temp_paths_def opens_def ustr_def upt_rec)
  have d3: "merged_document (snd (pool_map sample_libs [1, 0] sample_world ?cs))
            (temp_paths (fst (pool_map sample_libs [1, 0] sample_world ?cs))) = ?cs"
    by (simp add: pool_map_def render_chunk_def sample_world_def sample_libs_def
        merged_document_def temp_paths_def pages_at_def ustr_def upt_rec)
  have s3: "fitz_save sample_libs ?cs ''/out.pdf'' = Saved" by (simp add: sample_libs_def)
  from render_pdf_destination[OF o, of failing_render_libs "[0, 1]" ?cs
      "fst (pool_map failing_render_libs [0, 1] sample_world ?cs)"
      "snd (pool_map failing_render_libs [0, 1] sample_world ?cs)"
      "fst (render_pdf failing_render_libs [0, 1] sample_world ?cs ''/out.pdf'')"
      "snd (render_pdf failing_render_libs [0, 1] sample_world ?cs ''/out.pdf'')"] n1
  have r1: "fst (render_pdf failing_render_libs [0, 1] sample_world ?cs ''/out.pdf'')
      = Inl ''One or more chunks failed to render.''
    \<and> files (snd (render_pdf failing_render_libs [0, 1] sample_world ?cs ''/out.pdf'')) ''/out.pdf''
      = files sample_world ''/out.pdf''"
    by simp
  from render_pdf_destination[OF o', of sample_libs "[0, 1]" ?cs
      "fst (pool_map sample_libs [0, 1] reused_name_world ?cs)"
      "snd (pool_map sample_libs [0, 1] reused_name_world ?cs)"
      "fst (render_pdf sample_libs [0, 1] reused_name_world ?cs ''/out.pdf'')"
      "snd (render_pdf sample_libs [0, 1] reused_name_world ?cs ''/out.pdf'')"] n2
  have r2: "isl (fst (render_pdf sample_libs [0, 1] reused_name_world ?cs ''/out.pdf''))
    \<and> files (snd (render_pdf sample_libs [0, 1] reused_name_world ?cs ''/out.pdf'')) ''/out.pdf''
      = files reused_name_world ''/out.pdf''"
    by auto
  from render_pdf_destination[OF o, of sample_libs "[1, 0]" ?cs
      "fst (pool_map sample_libs [1, 0] sample_world ?cs)"
      "snd (pool_map sample_libs [1, 0] sample_world ?cs)"
      "fst (render_pdf sample_libs [1, 0] sample_world ?cs ''/out.pdf'')"
      "snd (render_pdf sample_libs [1, 0] sample_world ?cs ''/out.pdf'')"] n3
  have r3: "fst (render_pdf sample_libs [1, 0] sample_world ?cs ''/out.pdf'') = Inr True
    \<and> files (snd (render_pdf sample_libs [1, 0] sample_world ?cs ''/out.pdf'')) ''/out.pdf''
      = Some (Pdf_file ?cs)"
    unfolding d3 by (simp add: s3)
  from r1 r2 r3 show ?thesis by blast
qed

text \<open>A save that fails half-way leaves a partial file at an output path that did not exist.\<close>

theorem partial_destination_counterexample:
  "files sample_world ''/out.pdf'' = None
   \<and> fst (render_pdf partial_save_libs [0] sample_world [ustr ''chunk 1''] ''/out.pdf'')
       = Inl ''save failed''
   \<and> files (snd (render_pdf partial_save_libs [0] sample_world [ustr ''chunk 1''] ''/out.pdf''))
       ''/out.pdf'' = Some Partial_file"
  by (simp add: render_pdf_def pool_map_def render_chunk_def sample_world_def sample_libs_def
      partial_save_libs_def ustr_def)

section \<open>Properties of the assembler\<close>

subsection \<open>What a run adds to its paragraph\<close>

lemma append_child_sel [simp]:
  "tag (append_child e c) = tag e" "attrib (append_child e c) = attrib e"
  "etext (append_child e c) = etext e" "etail (append_child e c) = etail e"
  "children (append_child e c) = children e @ [c]"
  by (simp_all add: append_child_def)











subsection \<open>Text that contains markup\<close>

text \<open>
  Claim C8, evaluated on a run whose text is \<open></b>\<close>. \<open>process_text_node\<close> copies the
  \<open></\<close> into the markup unescaped, the parser reads it as the start of an end tag, and the
  element that the assembler emits for the run has the text \<open>b>\<close>: two characters of the
  run are lost.
\<close>

theorem markup_text_loses_characters:
  "process_text_node ascii_runtime (ustr ''</b>'') (1 / 2) =
     Some (ustr ''</<span class=\"bionic-prefix\">b</span>>'')
   \<and> map text_content
       (children (add_text ascii_runtime markup_libs (1 / 2)
          \<lparr>run_text = ustr ''</b>'', bold = False, italic = False, underline = False,
           run_font_size = None, drawings = [], line_break = False\<rparr>
          (Elem ''div'' [] None [] None)))
     = [ustr ''b>'']"
proof -
  have p: "process_text_node ascii_runtime (ustr ''</b>'') (1 / 2) =
     Some (ustr ''</<span class=\"bionic-prefix\">b</span>>'')"
    by (simp add: process_text_node_def py_strip_def is_space_def ascii_space_def
      is_word_char_def ascii_alnum_def wrap_word_def slice_def
      ascii_runtime_def ustr_def open_prefix_def open_rest_def close_span_def)
  have h: "html_fromstring markup_libs
            (ustr ''<div>'' @ ustr ''</<span class=\"bionic-prefix\">b</span>>'' @ ustr ''</div>'')
         = Inr (Elem ''div'' [] None
                        [Elem ''span'' [(''class'', ustr ''bionic-prefix'')] (Some (ustr ''b'')) []
                           (Some (ustr ''>''))]
                        None)"
    by (simp add: markup_libs_def ustr_def)
  have nz: "ustr ''</<span class=\"bionic-prefix\">b</span>>'' \<noteq> []" by (simp add: ustr_def)
  have nt: "ustr ''</b>'' \<noteq> []" by (simp add: ustr_def)
  show ?thesis
    using nz nt
    by (simp add: p add_text_def Let_def h run_styles_def size_pt_def append_child_def
        text_of_def del: append_Cons)
       (simp add: ustr_def)
qed

section \<open>Properties of the image pipeline\<close>








lemma drawing_elements_absent:
  "images_dict rid = None \<Longrightarrow> drawing_elements images_dict [\<lparr>blip = Some (Some rid)\<rparr>] = []"
  by (simp add: drawing_elements_def)






subsection \<open>Downscaling\<close>

text \<open>
  For a float rounding with relative error at most \<open>2 ^ (-53)\<close>, as binary64 has on the numbers
  that occur here, the requested width of an image wider than 1200 is 1199 or 1200, the
  requested height is the scaled height up to rounding and truncation and never exceeds the
  height of the image, and an image of width at most 1200 keeps its size.
\<close>

lemma fl_bounds:
  assumes rel: "\<And>x. \<bar>fl py x - x\<bar> \<le> \<bar>x\<bar> / 2 ^ 53" and x: "0 \<le> x"
  shows "x * (1 - 1 / 2 ^ 53) \<le> fl py x" and "fl py x \<le> x * (1 + 1 / 2 ^ 53)"
proof -
  have a: "\<bar>fl py x - x\<bar> \<le> x / 2 ^ 53" using rel[of x] x by simp
  have "x - x / 2 ^ 53 \<le> fl py x" using a by linarith
  then show "x * (1 - 1 / 2 ^ 53) \<le> fl py x" by (simp add: right_diff_distrib)
  have "fl py x \<le> x + x / 2 ^ 53" using a by linarith
  then show "fl py x \<le> x * (1 + 1 / 2 ^ 53)" by (simp add: distrib_left)
qed

lemma scaled_bounds:
  assumes rel: "\<And>x. \<bar>fl py x - x\<bar> \<le> \<bar>x\<bar> / 2 ^ 53" and w: "0 < w"
  shows "real n * (1200 / real w) * ((1 - 1 / 2 ^ 53) * (1 - 1 / 2 ^ 53))
           \<le> fl py (real n * fl py (1200 / real w))"
    and "fl py (real n * fl py (1200 / real w))
           \<le> real n * (1200 / real w) * ((1 + 1 / 2 ^ 53) * (1 + 1 / 2 ^ 53))"
proof -
  define a where "a = 1200 / real w"
  define lo :: real where "lo = 1 - 1 / 2 ^ 53"
  define hi :: real where "hi = 1 + 1 / 2 ^ 53"
  have a0: "0 \<le> a" using w by (simp add: a_def)
  have lo0: "0 \<le> lo" and hi0: "0 \<le> hi" by (simp_all add: lo_def hi_def)
  have r1: "a * lo \<le> fl py a" and r2: "fl py a \<le> a * hi"
    using fl_bounds[OF rel a0] by (simp_all add: lo_def hi_def)
  have r0: "0 \<le> fl py a" using r1 a0 lo0 by (meson mult_nonneg_nonneg order_trans)
  define p where "p = real n * fl py a"
  have p0: "0 \<le> p" using r0 by (simp add: p_def)
  have p1: "real n * (a * lo) \<le> p" unfolding p_def using r1 by (intro mult_left_mono) simp_all
  have p2: "p \<le> real n * (a * hi)" unfolding p_def using r2 by (intro mult_left_mono) simp_all
  have q1: "p * lo \<le> fl py p" and q2: "fl py p \<le> p * hi"
    using fl_bounds[OF rel p0] by (simp_all add: lo_def hi_def)
  have "real n * (a * lo) * lo \<le> p * lo" using p1 lo0 by (intro mult_right_mono)
  then have "real n * a * (lo * lo) \<le> fl py p" using q1 by (simp add: mult.assoc)
  then show "real n * (1200 / real w) * ((1 - 1 / 2 ^ 53) * (1 - 1 / 2 ^ 53))
           \<le> fl py (real n * fl py (1200 / real w))"
    by (simp add: a_def lo_def p_def)
  have "p * hi \<le> real n * (a * hi) * hi" using p2 hi0 by (intro mult_right_mono)
  then have "fl py p \<le> real n * a * (hi * hi)" using q2 by (simp add: mult.assoc)
  then show "fl py (real n * fl py (1200 / real w))
           \<le> real n * (1200 / real w) * ((1 + 1 / 2 ^ 53) * (1 + 1 / 2 ^ 53))"
    by (simp add: a_def hi_def p_def)
qed

lemma new_size_width_bound:
  assumes rel: "\<And>x. \<bar>fl py x - x\<bar> \<le> \<bar>x\<bar> / 2 ^ 53" and w: "MAX_IMAGE_WIDTH < w"
  shows "fst (new_size py w h) = 1199 \<or> fst (new_size py w h) = 1200"
proof -
  have wpos: "0 < w" using w by (simp add: MAX_IMAGE_WIDTH_def)
  define q where "q = fl py (real w * fl py (1200 / real w))"
  have id: "real w * (1200 / real w) = 1200" using wpos by simp
  have lo: "1200 * ((1 - 1 / 2 ^ 53) * (1 - 1 / 2 ^ 53)) \<le> q"
    using scaled_bounds(1)[OF rel wpos, of w] unfolding id q_def .
  have hi: "q \<le> 1200 * ((1 + 1 / 2 ^ 53) * (1 + 1 / 2 ^ 53))"
    using scaled_bounds(2)[OF rel wpos, of w] unfolding id q_def .
  have n1: "(1199::real) < 1200 * ((1 - 1 / 2 ^ 53) * (1 - 1 / 2 ^ 53))" by simp
  have n2: "1200 * ((1 + 1 / 2 ^ 53) * (1 + 1 / 2 ^ 53)) < (1201::real)" by simp
  have q: "1199 < q" "q < 1201" using lo hi n1 n2 by linarith+
  have "1199 \<le> \<lfloor>q\<rfloor>" using q(1) by (simp add: le_floor_iff)
  moreover have "\<lfloor>q\<rfloor> < 1201" using q(2) by (simp add: floor_less_iff)
  ultimately have "\<lfloor>q\<rfloor> = 1199 \<or> \<lfloor>q\<rfloor> = 1200" by linarith
  moreover have "fst (new_size py w h) = \<lfloor>q\<rfloor>"
    using q by (simp add: new_size_def Let_def py_int_def q_def MAX_IMAGE_WIDTH_def)
  ultimately show ?thesis by simp
qed

lemma new_size_height_bound:
  assumes rel: "\<And>x. \<bar>fl py x - x\<bar> \<le> \<bar>x\<bar> / 2 ^ 53" and w: "MAX_IMAGE_WIDTH < w"
  shows "real_of_int (snd (new_size py w h))
           \<le> real h * (1200 / real w) * ((1 + 1 / 2 ^ 53) * (1 + 1 / 2 ^ 53))"
    and "real h * (1200 / real w) * ((1 - 1 / 2 ^ 53) * (1 - 1 / 2 ^ 53)) - 1
           < real_of_int (snd (new_size py w h))"
    and "snd (new_size py w h) \<le> int h"
proof -
  have wpos: "0 < w" using w by (simp add: MAX_IMAGE_WIDTH_def)
  define q where "q = fl py (real h * fl py (1200 / real w))"
  define s where "s = real h * (1200 / real w)"
  have s0: "0 \<le> s" by (simp add: s_def)
  have lo: "s * ((1 - 1 / 2 ^ 53) * (1 - 1 / 2 ^ 53)) \<le> q"
    using scaled_bounds(1)[OF rel wpos, of h] unfolding s_def q_def .
  have hi: "q \<le> s * ((1 + 1 / 2 ^ 53) * (1 + 1 / 2 ^ 53))"
    using scaled_bounds(2)[OF rel wpos, of h] unfolding s_def q_def .
  have "0 \<le> s * ((1 - 1 / 2 ^ 53) * (1 - 1 / 2 ^ 53))" using s0 by simp
  then have q0: "0 \<le> q" using lo by linarith
  have sn: "snd (new_size py w h) = \<lfloor>q\<rfloor>"
    using q0 by (simp add: new_size_def Let_def py_int_def q_def MAX_IMAGE_WIDTH_def)
  show "real_of_int (snd (new_size py w h))
           \<le> real h * (1200 / real w) * ((1 + 1 / 2 ^ 53) * (1 + 1 / 2 ^ 53))"
    unfolding sn s_def[symmetric] using hi of_int_floor_le[of q] by linarith
  show "real h * (1200 / real w) * ((1 - 1 / 2 ^ 53) * (1 - 1 / 2 ^ 53)) - 1
           < real_of_int (snd (new_size py w h))"
    unfolding sn s_def[symmetric] using lo floor_correct[of q] by linarith
  have w1: "1201 \<le> real w" using w by (simp add: MAX_IMAGE_WIDTH_def)
  have "1200 / real w \<le> 1200 / 1201" using w1 by (intro frac_le) simp_all
  then have "s \<le> real h * (1200 / 1201)" unfolding s_def by (intro mult_left_mono) simp_all
  then have "s * ((1 + 1 / 2 ^ 53) * (1 + 1 / 2 ^ 53))
               \<le> real h * (1200 / 1201) * ((1 + 1 / 2 ^ 53) * (1 + 1 / 2 ^ 53))"
    by (intro mult_right_mono) simp_all
  also have "\<dots> = real h * ((1200 / 1201) * ((1 + 1 / 2 ^ 53) * (1 + 1 / 2 ^ 53)))"
    by (simp add: mult.assoc)
  also have "\<dots> \<le> real h * 1" by (intro mult_left_mono) simp_all
  finally have "q \<le> real h" using hi by simp
  then have "\<lfloor>q\<rfloor> \<le> int h" by (simp add: floor_le_iff)
  then show "snd (new_size py w h) \<le> int h" using sn by simp
qed

lemma process_single_image_normalized:
  "fst (snd (process_single_image py libs data rid)) \<noteq> None \<Longrightarrow>
   \<exists>im. normalized_image py libs data = Inr im"
  by (auto simp: process_single_image_def normalized_image_def Let_def split: sum.splits)

lemma normalized_image_narrow:
  assumes "image_open libs data = Inr im" and "width im \<le> MAX_IMAGE_WIDTH"
  shows "\<exists>im'. normalized_image py libs data = Inr im' \<and>
               width im' = width im \<and> height im' = height im"
  using assms by (simp add: normalized_image_def Let_def convert_rgb_def)

lemma normalized_image_wide:
  assumes rel: "\<And>x. \<bar>fl py x - x\<bar> \<le> \<bar>x\<bar> / 2 ^ 53"
    and op: "image_open libs data = Inr im" and w: "MAX_IMAGE_WIDTH < width im"
    and h: "1 \<le> snd (new_size py (width im) (height im))"
  shows "\<exists>im'. normalized_image py libs data = Inr im' \<and>
               (width im' = 1199 \<or> width im' = 1200) \<and>
               int (height im') = snd (new_size py (width im) (height im)) \<and>
               height im' \<le> height im"
proof -
  define sz where "sz = new_size py (width im) (height im)"
  have wb: "fst sz = 1199 \<or> fst sz = 1200"
    unfolding sz_def by (rule new_size_width_bound[OF rel w])
  have hb: "snd sz \<le> int (height im)"
    unfolding sz_def by (rule new_size_height_bound(3)[OF rel w])
  have ok: "\<not> (fst sz < 1 \<or> snd sz < 1)" using wb h by (auto simp: sz_def)
  define im1 where "im1 = (if mode im = ''RGBA'' \<or> mode im = ''LA'' \<or>
                          (mode im = ''P'' \<and> transparency im) then im else convert_rgb im)"
  have d: "width im1 = width im" "height im1 = height im"
    by (simp_all add: im1_def convert_rgb_def)
  have "normalized_image py libs data =
          Inr (im1\<lparr>width := nat (fst sz), height := nat (snd sz)\<rparr>)"
    using op w ok d
    by (simp add: normalized_image_def Let_def im1_def[symmetric] pil_resize_def sz_def)
  then show ?thesis using wb hb h by (auto simp: sz_def)
qed

text \<open>
  Claim C10, evaluated on a decodable image of 2400 by 1 pixels: the target height
  \<open>int(1 * 0.5)\<close> is 0, \<open>resize\<close> raises, and the image is dropped with a warning
  instead of being scaled to width 1200.
\<close>

theorem thin_image_is_dropped:
  "new_size ascii_runtime 2400 1 = (1200, 0)
   \<and> process_single_image ascii_runtime thin_image_libs [0] ''rId1'' =
       (''rId1'', None,
        [Warning ''Failed to process image rId1: height and width must be > 0''])"
proof -
  have n: "new_size ascii_runtime 2400 1 = (1200, 0)"
    by (simp add: new_size_def ascii_runtime_def MAX_IMAGE_WIDTH_def py_int_def Let_def)
  have n': "new_size ascii_runtime 2400 (Suc 0) = (1200, 0)" using n by simp
  show ?thesis
    by (simp add: n n' process_single_image_def thin_image_libs_def sample_libs_def Let_def
        convert_rgb_def MAX_IMAGE_WIDTH_def pil_resize_def)
qed

end
